theory Spec2Isabelle
  imports Complex_Main "HOL-Library.Product_Lexorder"
begin

section \<open>Python strings and dictionaries\<close>

text \<open>
  A Python \<open>str\<close> is modelled as a HOL \<open>string\<close>, one \<open>char\<close> per character; the
  string functions below are the ASCII behaviour of \<open>str.strip\<close>, \<open>str.lower\<close>,
  \<open>str.upper\<close> and \<open>str.replace\<close>. A \<open>dict\<close> with string keys is an association list
  in insertion order; \<open>dict.get\<close> is \<open>map_of\<close>. A Python value that is \<open>True\<close>,
  \<open>False\<close> or \<open>None\<close> is a \<open>bool option\<close>.
\<close>

type_synonym ('k, 'v) dict = "('k \<times> 'v) list"

definition dict_get :: "('k, 'v) dict \<Rightarrow> 'k \<Rightarrow> 'v option" where
  "dict_get d k = map_of d k"

definition dict_get_default :: "('k, 'v) dict \<Rightarrow> 'k \<Rightarrow> 'v \<Rightarrow> 'v" where
  "dict_get_default d k dflt = (case map_of d k of None \<Rightarrow> dflt | Some v \<Rightarrow> v)"

definition dict_contains :: "('k, 'v) dict \<Rightarrow> 'k \<Rightarrow> bool" where
  "dict_contains d k = (map_of d k \<noteq> None)"

definition is_space :: "char \<Rightarrow> bool" where
  "is_space c = (c \<in> set [CHR 0x09, CHR 0x0A, CHR 0x0B, CHR 0x0C, CHR 0x0D,
                             CHR 0x1C, CHR 0x1D, CHR 0x1E, CHR 0x1F, CHR 0x20])"

definition strip :: "string \<Rightarrow> string" where
  "strip s = rev (dropWhile is_space (rev (dropWhile is_space s)))"

section \<open>Job (models/job.py)\<close>

record job =
  job_prefix :: string
  job_suffix :: string
  client :: string
  file_path :: string
  size_w :: string
  size_h :: string
  quantity :: string
  printer :: string
  print_mode :: string
  ssds_mode :: string
  media_group :: string
  media :: string
  job_type :: string
  bleed :: string
  registration :: string
  rotation :: string
  finish :: string
  grommets :: string
  pole_pockets :: string
  mirror :: string
  custom_text :: string
  inject_metadata :: bool
  quickset_override :: bool
  quickset :: string
  created_date :: string

text \<open>The dataclass defaults of \<open>Job\<close>; the creation timestamp is a parameter.\<close>

definition default_job :: "string \<Rightarrow> job" where
  "default_job now =
     \<lparr> job_prefix = ''TIT'', job_suffix = '''', client = '''', file_path = '''',
       size_w = ''24'', size_h = ''36'', quantity = ''1'',
       printer = '''', print_mode = ''Roll'', ssds_mode = ''SS'',
       media_group = ''Vinyl'', media = ''Glossy'', job_type = ''Standard'',
       bleed = ''None'', registration = ''None'', rotation = ''None'', finish = ''Glossy'',
       grommets = ''None'', pole_pockets = ''None'', mirror = ''No'',
       custom_text = '''',
       inject_metadata = True, quickset_override = False, quickset = ''QuickSet1'',
       created_date = now \<rparr>"

text \<open>
  \<open>Job.get_routing_criteria\<close>: the ten fixed entries, \<open>SSDS Mode\<close> added (a fresh key,
  so appended) for flatbed jobs, then the comprehension that keeps an entry only when its
  value is truthy and not one of \<open>"None"\<close>, \<open>"No"\<close>, \<open>""\<close>.
\<close>

definition get_routing_criteria :: "job \<Rightarrow> (string, string) dict" where
  "get_routing_criteria j =
     (let criteria =
            [(''Print Mode'', print_mode j),
             (''Media Group'', media_group j),
             (''Job Type'', job_type j),
             (''Bleed'', bleed j),
             (''Registration'', registration j),
             (''Rotation'', rotation j),
             (''Finish'', finish j),
             (''Grommets'', grommets j),
             (''Pole Pockets'', pole_pockets j),
             (''Mirror'', mirror j)];
          criteria = (if print_mode j = ''Flatbed''
                      then criteria @ [(''SSDS Mode'', ssds_mode j)] else criteria)
      in filter (\<lambda>(k, v). v \<noteq> [] \<and> v \<notin> set [''None'', ''No'', '''']) criteria)"

section \<open>RoutingRule (models/routing_rule.py)\<close>

record routing_rule =
  target_folder :: string
  priority :: string
  criteria :: "(string, string) dict"
  auto_generated :: bool
  created :: string
  modified :: "string option"

text \<open>
  \<open>RoutingRule.matches_job\<close>: an empty criteria dict never matches; otherwise the loop
  over \<open>criteria.items()\<close> returns \<open>False\<close> at the first entry whose value differs from
  \<open>job_criteria.get(rule_key)\<close> (\<open>None\<close> when the key is absent), and \<open>True\<close> at the end.
\<close>

fun criteria_satisfied :: "(string, string) dict \<Rightarrow> (string, string) dict \<Rightarrow> bool" where
  "criteria_satisfied [] job_criteria = True"
| "criteria_satisfied ((rule_key, rule_value) # rest) job_criteria =
     (if dict_get job_criteria rule_key \<noteq> Some rule_value then False
      else criteria_satisfied rest job_criteria)"

definition matches_job :: "routing_rule \<Rightarrow> job \<Rightarrow> bool" where
  "matches_job r j =
     (if criteria r = [] then False
      else criteria_satisfied (criteria r) (get_routing_criteria j))"

text \<open>\<open>RoutingRule.get_priority_weight\<close>: an unknown priority weighs 2.\<close>

definition priority_weights :: "(string, int) dict" where
  "priority_weights = [(''High'', 3), (''Normal'', 2), (''Low'', 1)]"

definition get_priority_weight :: "routing_rule \<Rightarrow> int" where
  "get_priority_weight r = dict_get_default priority_weights (priority r) 2"

text \<open>
  \<open>RoutingRule.validate\<close>: the errors in the order the checks append them; a criteria
  value is rejected only when it is empty or whitespace.
\<close>

definition validate_rule :: "routing_rule \<Rightarrow> bool \<times> string list" where
  "validate_rule r =
     (let errors = [];
          errors = (if strip (target_folder r) = []
                    then errors @ [''Target folder is required''] else errors);
          errors = (if criteria r = []
                    then errors @ [''At least one criteria is required''] else errors);
          errors = (if priority r \<notin> set [''High'', ''Normal'', ''Low'']
                    then errors @ [''Priority must be High, Normal, or Low''] else errors);
          errors = foldl (\<lambda>errs (key, v).
                            if v = [] \<or> strip v = []
                            then errs @ [''Criteria '' @ [CHR 0x27] @ key @ [CHR 0x27]
                                         @ '' has empty value'']
                            else errs)
                         errors (criteria r)
      in (errors = [], errors))"

section \<open>Configuration (config/manager.py, config/constants.py)\<close>

text \<open>
  A routing rule as it is stored in the configuration document: a JSON object in which any
  key may be missing. \<open>RoutingRule.from_dict\<close> fills in the defaults; the default of
  \<open>created\<close> is the current time, a parameter here.
\<close>

record rule_data =
  rd_target_folder :: "string option"
  rd_priority :: "string option"
  rd_criteria :: "(string, string) dict option"
  rd_auto_generated :: "bool option"
  rd_created :: "string option"
  rd_modified :: "string option"

definition from_dict :: "string \<Rightarrow> rule_data \<Rightarrow> routing_rule" where
  "from_dict now data =
     \<lparr> target_folder = (case rd_target_folder data of None \<Rightarrow> '''' | Some t \<Rightarrow> t),
       priority = (case rd_priority data of None \<Rightarrow> ''Normal'' | Some p \<Rightarrow> p),
       criteria = (case rd_criteria data of None \<Rightarrow> [] | Some c \<Rightarrow> c),
       auto_generated = (case rd_auto_generated data of None \<Rightarrow> False | Some a \<Rightarrow> a),
       created = (case rd_created data of None \<Rightarrow> now | Some c \<Rightarrow> c),
       modified = rd_modified data \<rparr>"

record printer_data =
  display_name :: "string option"
  types :: "string list"
  active :: "bool option"

text \<open>The keys of the configuration document that the routing engine reads.\<close>

record config =
  client_list :: "string list"
  printers :: "(string, printer_data) dict"
  hotfolder_root :: string
  art_root_path :: string
  client_art_folders :: "(string, string) dict"
  enable_art_copy :: bool
  routing_rules :: "(string, rule_data list) dict"

text \<open>
  \<open>ConfigManager.get_routing_rules(printer)\<close> returns the printer's rule list (empty when
  the printer has no entry) when the printer name is truthy, and the whole per-printer dict
  when it is the empty string.
\<close>

datatype rules_result =
    Printer_rules "rule_data list"
  | All_rules "(string, rule_data list) dict"

definition get_routing_rules :: "config \<Rightarrow> string \<Rightarrow> rules_result" where
  "get_routing_rules cfg p =
     (let rules = routing_rules cfg
      in if p \<noteq> [] then Printer_rules (dict_get_default rules p []) else All_rules rules)"

definition is_art_copy_enabled :: "config \<Rightarrow> bool" where
  "is_art_copy_enabled cfg = enable_art_copy cfg"

definition get_hotfolder_root :: "config \<Rightarrow> string" where
  "get_hotfolder_root cfg = hotfolder_root cfg"

definition get_art_root_path :: "config \<Rightarrow> string" where
  "get_art_root_path cfg = art_root_path cfg"

definition get_client_art_folders :: "config \<Rightarrow> (string, string) dict" where
  "get_client_art_folders cfg = client_art_folders cfg"

text \<open>
  \<open>ConfigManager.get_printer_folder_name\<close>: the first printer entry whose display name
  (its folder name when it has none) is the given name; the name itself otherwise.
\<close>

fun printer_folder_lookup :: "(string, printer_data) dict \<Rightarrow> string \<Rightarrow> string" where
  "printer_folder_lookup [] dn = dn"
| "printer_folder_lookup ((folder_name, pdata) # rest) dn =
     (if (case display_name pdata of None \<Rightarrow> folder_name | Some d \<Rightarrow> d) = dn
      then folder_name else printer_folder_lookup rest dn)"

definition get_printer_folder_name :: "config \<Rightarrow> string \<Rightarrow> string" where
  "get_printer_folder_name cfg dn = printer_folder_lookup (printers cfg) dn"

section \<open>Target-folder resolution (core/routing_engine.py)\<close>

text \<open>
  \<open>list.sort(key=key, reverse=True)\<close> is a stable sort into descending key order: elements
  with equal keys keep their original relative order.
\<close>

definition list_sort_reverse :: "('a \<Rightarrow> int) \<Rightarrow> 'a list \<Rightarrow> 'a list" where
  "list_sort_reverse key xs = sort_key (\<lambda>x. - key x) xs"

text \<open>The loop that collects \<open>(i, rule)\<close> for every rule that matches, in list order.\<close>

fun find_matching_rules ::
  "job \<Rightarrow> (nat \<times> routing_rule) list \<Rightarrow> (nat \<times> routing_rule) list
     \<Rightarrow> (nat \<times> routing_rule) list" where
  "find_matching_rules j [] matching_rules = matching_rules"
| "find_matching_rules j ((i, rule) # rest) matching_rules =
     (if matches_job rule j then find_matching_rules j rest (matching_rules @ [(i, rule)])
      else find_matching_rules j rest matching_rules)"

text \<open>
  \<open>RoutingEngine.determine_target_folder\<close>. With an empty printer name the configuration
  hands back the per-printer dict: when that is empty the function returns \<open>None\<close> at
  once, and otherwise the comprehension iterates over printer names, \<open>from_dict\<close> raises
  on a string and the handler returns \<open>None\<close>. No other step can raise.
\<close>

definition determine_target_folder :: "string \<Rightarrow> config \<Rightarrow> job \<Rightarrow> string option" where
  "determine_target_folder now cfg j =
     (case get_routing_rules cfg (printer j) of
        All_rules d \<Rightarrow> None
      | Printer_rules routing_rules_data \<Rightarrow>
          if routing_rules_data = [] then None
          else
            let routing_rules = map (from_dict now) routing_rules_data;
                matching_rules = find_matching_rules j (enumerate 0 routing_rules) []
            in if matching_rules = [] then None
               else
                 let matching_rules =
                       (if length matching_rules > 1
                        then list_sort_reverse (\<lambda>x. get_priority_weight (snd x)) matching_rules
                        else matching_rules)
                 in (case matching_rules of
                       (rule_index, selected_rule) # _ \<Rightarrow> Some (target_folder selected_rule)
                     | [] \<Rightarrow> None))"

text \<open>
  The rules configured for a printer, as \<open>RoutingRule\<close> objects in configured order, and
  the subset test of a rule's criteria against a job's derived criteria.
\<close>

definition configured_rules :: "string \<Rightarrow> config \<Rightarrow> string \<Rightarrow> routing_rule list" where
  "configured_rules now cfg p = map (from_dict now) (dict_get_default (routing_rules cfg) p [])"

definition criteria_subset :: "routing_rule \<Rightarrow> job \<Rightarrow> bool" where
  "criteria_subset r j =
     (\<forall>(k, v) \<in> set (criteria r). dict_get (get_routing_criteria j) k = Some v)"

section \<open>File routing and art copy (core/routing_engine.py)\<close>

text \<open>
  The operating system as the engine sees it: whether a path exists, how two path
  components are joined, and how \<open>os.makedirs(path, exist_ok=True)\<close> and
  \<open>shutil.copy2(src, dst)\<close> end: normally, with a \<open>PermissionError\<close>, or with another
  exception; the string is the exception's message.
\<close>

datatype os_outcome = Done | Permission_error string | Other_error string

record os_env =
  path_exists :: "string \<Rightarrow> bool"
  path_join :: "string \<Rightarrow> string \<Rightarrow> string"
  makedirs :: "string \<Rightarrow> os_outcome"
  copy2 :: "string \<Rightarrow> string \<Rightarrow> os_outcome"
  now_iso :: string

definition exception_text :: "os_outcome \<Rightarrow> string" where
  "exception_text out = (case out of Done \<Rightarrow> '''' | Permission_error m \<Rightarrow> m | Other_error m \<Rightarrow> m)"

text \<open>
  The dict \<open>{"success": ..., "path": ..., "error": ...}\<close> that each step returns;
  \<open>success\<close> is \<open>True\<close>, \<open>False\<close> or \<open>None\<close>.
\<close>

record step_result =
  success :: "bool option"
  path :: "string option"
  error :: "string option"

text \<open>
  Lines 84 to 87 of \<open>route_to_hotfolder\<close>: the target subfolder, \<open>"Default"\<close> when
  \<open>determine_target_folder\<close> returns \<open>None\<close> or the empty string.
\<close>

definition hotfolder_target_folder :: "os_env \<Rightarrow> config \<Rightarrow> job \<Rightarrow> string" where
  "hotfolder_target_folder os cfg j =
     (case determine_target_folder (now_iso os) cfg j of
        None \<Rightarrow> ''Default''
      | Some t \<Rightarrow> if t = [] then ''Default'' else t)"

text \<open>
  \<open>RoutingEngine.route_to_hotfolder\<close>. Any exception of the two file operations is
  caught and reported.
\<close>

definition route_to_hotfolder :: "os_env \<Rightarrow> config \<Rightarrow> string \<Rightarrow> string \<Rightarrow> job \<Rightarrow> step_result" where
  "route_to_hotfolder os cfg fpath fname j =
     (let hotfolder_root = get_hotfolder_root cfg
      in if hotfolder_root = [] \<or> \<not> path_exists os hotfolder_root
         then \<lparr> success = Some False, path = None,
                error = Some ''Hotfolder root not set or doesn't exist'' \<rparr>
         else
           let printer_folder = get_printer_folder_name cfg (printer j);
               printer_path = path_join os hotfolder_root printer_folder
           in if \<not> path_exists os printer_path
              then \<lparr> success = Some False, path = None,
                     error = Some (''Printer folder doesn't exist: '' @ printer_path) \<rparr>
              else
                let target_folder = hotfolder_target_folder os cfg j;
                    target_path = path_join os printer_path target_folder
                in (case makedirs os target_path of
                      Done \<Rightarrow>
                        let dest_file = path_join os target_path fname
                        in (case copy2 os fpath dest_file of
                              Done \<Rightarrow> \<lparr> success = Some True, path = Some target_path, error = None \<rparr>
                            | e \<Rightarrow> \<lparr> success = Some False, path = None,
                                     error = Some (''Hotfolder routing failed: '' @ exception_text e) \<rparr>)
                    | e \<Rightarrow> \<lparr> success = Some False, path = None,
                             error = Some (''Hotfolder routing failed: '' @ exception_text e) \<rparr>))"

text \<open>\<open>RoutingEngine.copy_to_client_art_folder\<close>.\<close>

definition copy_to_client_art_folder ::
  "os_env \<Rightarrow> config \<Rightarrow> string \<Rightarrow> string \<Rightarrow> job \<Rightarrow> step_result" where
  "copy_to_client_art_folder os cfg fpath fname j =
     (if client j = [] \<or> strip (client j) = []
      then \<lparr> success = None, path = None, error = None \<rparr>
      else
        let art_folders = get_client_art_folders cfg
        in (case dict_get art_folders (client j) of
              None \<Rightarrow> \<lparr> success = None, path = None, error = None \<rparr>
            | Some art_folder \<Rightarrow>
                if \<not> path_exists os art_folder
                then \<lparr> success = Some False, path = None,
                       error = Some (''Client art folder doesn't exist: '' @ art_folder) \<rparr>
                else
                  let dest_file = path_join os art_folder fname
                  in (case copy2 os fpath dest_file of
                        Done \<Rightarrow> \<lparr> success = Some True, path = Some art_folder, error = None \<rparr>
                      | Permission_error m \<Rightarrow>
                          \<lparr> success = Some False, path = None,
                            error = Some (''Permission denied accessing art folder: '' @ m) \<rparr>
                      | Other_error m \<Rightarrow>
                          \<lparr> success = Some False, path = None,
                            error = Some (''Art folder copy failed: '' @ m) \<rparr>)))"

text \<open>
  Python's \<open>a or b\<close> on values that are \<open>True\<close>, \<open>False\<close> or \<open>None\<close>: \<open>a\<close> when it is
  truthy, \<open>b\<close> otherwise.
\<close>

definition py_or :: "bool option \<Rightarrow> bool option \<Rightarrow> bool option" where
  "py_or a b = (if a = Some True then a else b)"

text \<open>
  The dict that \<open>process_file\<close> returns; its top-level \<open>"success"\<close> entry is the field
  \<open>overall_success\<close>.
\<close>

record process_result =
  overall_success :: "bool option"
  hotfolder :: step_result
  art_copy :: step_result
  filename :: string

text \<open>
  \<open>RoutingEngine.process_file\<close>. Both steps catch every exception themselves, so the
  handler of \<open>process_file\<close> is never entered.
\<close>

definition process_file :: "os_env \<Rightarrow> config \<Rightarrow> string \<Rightarrow> string \<Rightarrow> job \<Rightarrow> process_result" where
  "process_file os cfg fpath fname j =
     (let results = \<lparr> overall_success = Some False,
                       hotfolder = \<lparr> success = Some False, path = None, error = None \<rparr>,
                       art_copy = \<lparr> success = None, path = None, error = None \<rparr>,
                       filename = fname \<rparr>;
          hotfolder_result = route_to_hotfolder os cfg fpath fname j;
          results = results \<lparr> hotfolder := hotfolder_result \<rparr>;
          results = (if is_art_copy_enabled cfg
                     then results \<lparr> art_copy := copy_to_client_art_folder os cfg fpath fname j \<rparr>
                     else results)
      in results \<lparr> overall_success := py_or (success (hotfolder results)) (success (art_copy results)) \<rparr>)"

section \<open>Concrete inputs\<close>

text \<open>A job, stored rules, a configuration and an operating system to evaluate the model on.\<close>

definition example_job :: job where
  "example_job = (default_job ''2024-01-01T00:00:00'')
     \<lparr> client := ''Acme'', printer := ''Canon'', finish := ''Matte'' \<rparr>"

definition example_rule :: "string \<Rightarrow> string \<Rightarrow> (string, string) dict \<Rightarrow> rule_data" where
  "example_rule t p c =
     \<lparr> rd_target_folder = Some t, rd_priority = Some p, rd_criteria = Some c,
       rd_auto_generated = None, rd_created = None, rd_modified = None \<rparr>"

definition example_config :: "rule_data list \<Rightarrow> config" where
  "example_config rs =
     \<lparr> client_list = [''Acme''], printers = [], hotfolder_root = ''/hot'',
       art_root_path = ''/art'', client_art_folders = [(''Acme'', ''/art/Acme'')],
       enable_art_copy = True, routing_rules = [(''Canon'', rs)] \<rparr>"

definition example_os :: "string list \<Rightarrow> os_env" where
  "example_os existing =
     \<lparr> path_exists = (\<lambda>p. p \<in> set existing),
       path_join = (\<lambda>a b. a @ ''/'' @ b),
       makedirs = (\<lambda>p. Done),
       copy2 = (\<lambda>src dst. Done),
       now_iso = ''2024-01-01T00:00:00'' \<rparr>"

section \<open>FilenameGenerator (core/filename_generator.py)\<close>

text \<open>
  The string methods the generator uses, on ASCII text: \<open>lower\<close>, \<open>upper\<close>,
  \<open>s.replace(old, new)\<close> (every non-overlapping occurrence, left to right; \<open>old\<close> is a
  non-empty literal at every call site), \<open>sub in s\<close> and \<open>sep.join(parts)\<close>.
\<close>

definition lower_char :: "char \<Rightarrow> char" where
  "lower_char c =
     (case map_of (zip ''ABCDEFGHIJKLMNOPQRSTUVWXYZ'' ''abcdefghijklmnopqrstuvwxyz'') c of
        None \<Rightarrow> c | Some d \<Rightarrow> d)"

definition upper_char :: "char \<Rightarrow> char" where
  "upper_char c =
     (case map_of (zip ''abcdefghijklmnopqrstuvwxyz'' ''ABCDEFGHIJKLMNOPQRSTUVWXYZ'') c of
        None \<Rightarrow> c | Some d \<Rightarrow> d)"

definition lower :: "string \<Rightarrow> string" where
  "lower s = map lower_char s"

definition upper :: "string \<Rightarrow> string" where
  "upper s = map upper_char s"

function str_replace :: "string \<Rightarrow> string \<Rightarrow> string \<Rightarrow> string" where
  "str_replace s old new =
     (if old = [] \<or> s = [] then s
      else if take (length old) s = old then new @ str_replace (drop (length old) s) old new
      else hd s # str_replace (tl s) old new)"
  by pat_completeness auto
termination
  by (relation "measure (\<lambda>(s, old, new). length s)") (auto simp: length_greater_0_conv)

declare str_replace.simps [simp del]

fun str_contains :: "string \<Rightarrow> string \<Rightarrow> bool" where
  "str_contains [] sub = (sub = [])"
| "str_contains (c # cs) sub = (take (length sub) (c # cs) = sub \<or> str_contains cs sub)"

fun str_join :: "string \<Rightarrow> string list \<Rightarrow> string" where
  "str_join sep [] = []"
| "str_join sep [p] = p"
| "str_join sep (p # q # ps) = p @ sep @ str_join sep (q # ps)"

definition default_extension :: string where
  "default_extension = ''.pdf''"

text \<open>
  \<open>_build_parts_map\<close>. \<open>get_value(key, default)\<close> is the stripped entry of the job data,
  or the stripped default when the key is absent; the date is the current date formatted
  \<open>MM-DD-YY\<close>, a parameter here.
\<close>

definition get_value :: "(string, string) dict \<Rightarrow> string \<Rightarrow> string \<Rightarrow> string" where
  "get_value job_data key dflt = strip (dict_get_default job_data key dflt)"

definition build_parts_map :: "string \<Rightarrow> (string, string) dict \<Rightarrow> (string, string) dict" where
  "build_parts_map today job_data =
     [(''job_number'', get_value job_data ''job_prefix'' ''TIT'' @ get_value job_data ''job_suffix'' ''''),
      (''client'', get_value job_data ''client'' ''''),
      (''size'', get_value job_data ''size_w'' '''' @ ''x'' @ get_value job_data ''size_h'' ''''),
      (''quantity'', ''QTY'' @ get_value job_data ''quantity'' ''1''),
      (''finish'', get_value job_data ''finish'' ''''),
      (''bleed'', get_value job_data ''bleed'' ''''),
      (''rotation'', get_value job_data ''rotation'' ''''),
      (''registration'', get_value job_data ''registration'' ''''),
      (''grommets'', get_value job_data ''grommets'' ''''),
      (''pole_pockets'', get_value job_data ''pole_pockets'' ''''),
      (''mirror'', get_value job_data ''mirror'' ''''),
      (''date'', today),
      (''custom_text'', get_value job_data ''custom_text'' '''')]"

text \<open>
  The loop of \<open>generate\<close> over \<open>components_order\<close>, with its three \<open>continue\<close>
  statements, and \<open>generate\<close> itself. With string-valued job data nothing in the body
  raises, so the timestamp fallback of the handler is never produced.
\<close>

fun ordered_parts_loop ::
  "(string, string) dict \<Rightarrow> (string, bool) dict \<Rightarrow> string list \<Rightarrow> string list \<Rightarrow> string list" where
  "ordered_parts_loop parts_map include_flags [] ordered_parts = ordered_parts"
| "ordered_parts_loop parts_map include_flags (component_key # rest) ordered_parts =
     (if \<not> dict_get_default include_flags component_key True
      then ordered_parts_loop parts_map include_flags rest ordered_parts
      else
        let part = dict_get_default parts_map component_key ''''
        in if part = [] \<or> lower part \<in> set [''none'', ''no'', '''']
           then ordered_parts_loop parts_map include_flags rest ordered_parts
           else if component_key = ''size'' \<and> part = ''x''
           then ordered_parts_loop parts_map include_flags rest ordered_parts
           else
             let clean_part = str_replace (str_replace part '' '' ''_'') ''&'' ''and''
             in ordered_parts_loop parts_map include_flags rest (ordered_parts @ [clean_part]))"

definition generate ::
  "string \<Rightarrow> (string, string) dict \<Rightarrow> string list \<Rightarrow> (string, bool) dict \<Rightarrow> string" where
  "generate today job_data components_order include_flags =
     (let parts_map = build_parts_map today job_data;
          ordered_parts = ordered_parts_loop parts_map include_flags components_order []
      in if ordered_parts \<noteq> [] then str_join ''_'' ordered_parts @ default_extension
         else ''untitled'' @ default_extension)"

text \<open>\<open>validate_filename\<close>: the issues in the order the checks append them.\<close>

definition invalid_chars :: string where
  "invalid_chars = [CHR ''<'', CHR ''>'', CHR '':'', CHR 0x22, CHR ''/'', CHR 0x5C,
                    CHR ''|'', CHR ''?'', CHR ''*'']"

definition reserved_names :: "string list" where
  "reserved_names = [''CON'', ''PRN'', ''AUX'', ''NUL'']
                    @ map (\<lambda>i. ''COM'' @ [i]) ''123456789''
                    @ map (\<lambda>i. ''LPT'' @ [i]) ''123456789''"

definition invalid_char_issue :: "char \<Rightarrow> string" where
  "invalid_char_issue c = ''Contains invalid character: '' @ [CHR 0x27, c, CHR 0x27]"

definition reserved_issue :: "string \<Rightarrow> string" where
  "reserved_issue base_name = [CHR 0x27] @ base_name @ [CHR 0x27] @ '' is a reserved filename''"

fun invalid_chars_loop :: "string \<Rightarrow> string \<Rightarrow> string list \<Rightarrow> string list" where
  "invalid_chars_loop [] fname issues = issues"
| "invalid_chars_loop (c # cs) fname issues =
     (if c \<in> set fname then invalid_chars_loop cs fname (issues @ [invalid_char_issue c])
      else invalid_chars_loop cs fname issues)"

definition validate_filename :: "string \<Rightarrow> bool \<times> string list" where
  "validate_filename fname =
     (let issues = []
      in if fname = [] then (False, issues @ [''Filename is empty''])
         else
           let issues = (if fname = default_extension
                         then issues @ [''Filename contains only extension''] else issues);
               issues = invalid_chars_loop invalid_chars fname issues;
               issues = (if length fname > 200
                         then issues @ [''Filename is too long (>200 characters)''] else issues);
               base_name = upper (str_replace fname default_extension '''');
               issues = (if base_name \<in> set reserved_names
                         then issues @ [reserved_issue base_name] else issues);
               issues = (if str_contains fname ''__''
                         then issues @ [''Contains double underscores (possible missing data)'']
                         else issues)
           in (issues = [], issues))"

definition example_job_data :: "(string, string) dict" where
  "example_job_data =
     [(''job_prefix'', ''TIT''), (''job_suffix'', ''1234''), (''client'', ''Acme & Co''),
      (''size_w'', ''24''), (''size_h'', ''36''), (''quantity'', ''2''),
      (''finish'', ''Matte''), (''bleed'', ''None''), (''rotation'', ''NONE''),
      (''registration'', ''iCut''), (''grommets'', ''None''), (''pole_pockets'', ''Top & Bottom''),
      (''mirror'', ''No''), (''custom_text'', '''')]"

section \<open>String similarity (difflib.SequenceMatcher of the Python standard library)\<close>

text \<open>
  \<open>auto_match_clients\<close> calls \<open>SequenceMatcher(None, a, b).ratio()\<close>. The model follows
  \<open>Lib/difflib.py\<close>: \<open>__chain_b\<close>, \<open>find_longest_match\<close>, \<open>get_matching_blocks\<close>,
  \<open>ratio\<close> and \<open>_calculate_ratio\<close>, with \<open>isjunk = None\<close> (so the junk set is empty) and
  \<open>autojunk = True\<close>. Indices are natural numbers; a match is the triple \<open>(i, j, k)\<close>
  saying that \<open>a[i:i+k]\<close> equals \<open>b[j:j+k]\<close>.
\<close>

type_synonym match = "nat \<times> nat \<times> nat"

text \<open>
  \<open>__chain_b\<close>: \<open>b2j\<close> maps each element of \<open>b\<close> to the list of its indices, in
  increasing order; when \<open>b\<close> has 200 elements or more, the elements that occur more than
  \<open>n // 100 + 1\<close> times are deleted from it.
\<close>

fun b2j_append :: "(char, nat list) dict \<Rightarrow> char \<Rightarrow> nat \<Rightarrow> (char, nat list) dict" where
  "b2j_append [] elt i = [(elt, [i])]"
| "b2j_append ((e, indices) # d) elt i =
     (if e = elt then (e, indices @ [i]) # d else (e, indices) # b2j_append d elt i)"

definition chain_b :: "string \<Rightarrow> (char, nat list) dict" where
  "chain_b b =
     (let b2j = foldl (\<lambda>d (i, elt). b2j_append d elt i) [] (enumerate 0 b);
          n = length b
      in if n \<ge> 200
         then let ntest = n div 100 + 1
              in filter (\<lambda>(elt, idxs). \<not> length idxs > ntest) b2j
         else b2j)"

text \<open>
  The inner loop of \<open>find_longest_match\<close> over the indices \<open>j\<close> of \<open>a[i]\<close> in \<open>b\<close>,
  with its \<open>continue\<close> and \<open>break\<close>. \<open>j2len.get(j-1, 0)\<close> is 0 for \<open>j = 0\<close>, since
  \<open>-1\<close> is never a key. The new start \<open>i-k+1\<close> is written \<open>i + 1 - k\<close>; \<open>k\<close> never
  exceeds \<open>i + 1\<close>.
\<close>

fun j_loop ::
  "nat \<Rightarrow> nat \<Rightarrow> nat \<Rightarrow> (nat \<rightharpoonup> nat) \<Rightarrow> nat list \<Rightarrow> (nat \<rightharpoonup> nat) \<times> match
     \<Rightarrow> (nat \<rightharpoonup> nat) \<times> match" where
  "j_loop i blo bhi j2len [] st = st"
| "j_loop i blo bhi j2len (j # js) (newj2len, (besti, bestj, bestsize)) =
     (if j < blo then j_loop i blo bhi j2len js (newj2len, (besti, bestj, bestsize))
      else if j \<ge> bhi then (newj2len, (besti, bestj, bestsize))
      else
        let k = (if j = 0 then 0 else (case j2len (j - 1) of None \<Rightarrow> 0 | Some v \<Rightarrow> v)) + 1;
            newj2len = newj2len(j \<mapsto> k)
        in if k > bestsize
           then j_loop i blo bhi j2len js (newj2len, (i + 1 - k, j + 1 - k, k))
           else j_loop i blo bhi j2len js (newj2len, (besti, bestj, bestsize)))"

text \<open>One iteration of the outer loop \<open>for i in range(alo, ahi)\<close>.\<close>

definition i_step ::
  "string \<Rightarrow> (char, nat list) dict \<Rightarrow> nat \<Rightarrow> nat \<Rightarrow> (nat \<rightharpoonup> nat) \<times> match \<Rightarrow> nat
     \<Rightarrow> (nat \<rightharpoonup> nat) \<times> match" where
  "i_step a b2j blo bhi st i =
     j_loop i blo bhi (fst st) (dict_get_default b2j (a ! i) []) (Map.empty, snd st)"

text \<open>
  The loops that extend the best match to the left and to the right while the elements
  agree and the element of \<open>b\<close> passes the test \<open>ok\<close> (not junk in the first pair of
  loops, junk in the second pair).
\<close>

function extend_left :: "string \<Rightarrow> string \<Rightarrow> nat \<Rightarrow> nat \<Rightarrow> (char \<Rightarrow> bool) \<Rightarrow> match \<Rightarrow> match" where
  "extend_left a b alo blo ok (besti, bestj, bestsize) =
     (if besti > alo \<and> bestj > blo \<and> ok (b ! (bestj - 1)) \<and> a ! (besti - 1) = b ! (bestj - 1)
      then extend_left a b alo blo ok (besti - 1, bestj - 1, bestsize + 1)
      else (besti, bestj, bestsize))"
  by pat_completeness auto
termination
  by (relation "measure (\<lambda>(a, b, alo, blo, ok, besti, bestj, bestsize). besti)") auto

function extend_right :: "string \<Rightarrow> string \<Rightarrow> nat \<Rightarrow> nat \<Rightarrow> (char \<Rightarrow> bool) \<Rightarrow> match \<Rightarrow> match" where
  "extend_right a b ahi bhi ok (besti, bestj, bestsize) =
     (if besti + bestsize < ahi \<and> bestj + bestsize < bhi \<and> ok (b ! (bestj + bestsize))
         \<and> a ! (besti + bestsize) = b ! (bestj + bestsize)
      then extend_right a b ahi bhi ok (besti, bestj, bestsize + 1)
      else (besti, bestj, bestsize))"
  by pat_completeness auto
termination
  by (relation "measure (\<lambda>(a, b, ahi, bhi, ok, besti, bestj, bestsize). ahi - (besti + bestsize))") auto

declare extend_left.simps [simp del]
declare extend_right.simps [simp del]

definition find_longest_match ::
  "string \<Rightarrow> string \<Rightarrow> (char, nat list) dict \<Rightarrow> (char \<Rightarrow> bool) \<Rightarrow> nat \<Rightarrow> nat \<Rightarrow> nat \<Rightarrow> nat \<Rightarrow> match" where
  "find_longest_match a b b2j isbjunk alo ahi blo bhi =
     (let best = snd (foldl (i_step a b2j blo bhi) (Map.empty, (alo, blo, 0)) [alo..<ahi]);
          best = extend_left a b alo blo (\<lambda>c. \<not> isbjunk c) best;
          best = extend_right a b ahi bhi (\<lambda>c. \<not> isbjunk c) best;
          best = extend_left a b alo blo isbjunk best;
          best = extend_right a b ahi bhi isbjunk best
      in best)"

text \<open>
  What \<open>find_longest_match\<close> maintains for its best match, used below to show that the
  block loop terminates: either the match is empty and sits at \<open>(alo, blo)\<close>, or it lies
  inside both windows; and its elements are related position by position (by equality, when
  \<open>b2j\<close> only lists true occurrences). \<open>row_ok\<close> is the same for the table \<open>j2len\<close> of
  matches ending in the previous row.
\<close>

definition match_ok ::
  "(char \<Rightarrow> char \<Rightarrow> bool) \<Rightarrow> string \<Rightarrow> string \<Rightarrow> nat \<Rightarrow> nat \<Rightarrow> nat \<Rightarrow> nat \<Rightarrow> match \<Rightarrow> bool" where
  "match_ok R a b alo ahi blo bhi m =
     (case m of (i, j, k) \<Rightarrow>
        ((k = 0 \<and> i = alo \<and> j = blo)
         \<or> (0 < k \<and> alo \<le> i \<and> i + k \<le> ahi \<and> blo \<le> j \<and> j + k \<le> bhi))
        \<and> (\<forall>t<k. R (a ! (i + t)) (b ! (j + t))))"

definition row_ok ::
  "(char \<Rightarrow> char \<Rightarrow> bool) \<Rightarrow> string \<Rightarrow> string \<Rightarrow> nat \<Rightarrow> nat \<Rightarrow> nat \<Rightarrow> nat \<Rightarrow> (nat \<rightharpoonup> nat) \<Rightarrow> bool" where
  "row_ok R a b alo blo bhi i j2len =
     (\<forall>j k. j2len j = Some k \<longrightarrow>
        blo \<le> j \<and> j < bhi \<and> 0 < k \<and> k \<le> i - alo \<and> k \<le> j + 1 - blo
        \<and> (\<forall>t<k. R (a ! (i - 1 - t)) (b ! (j - t))))"

lemma row_ok_empty: "row_ok R a b alo blo bhi i Map.empty"
  by (simp add: row_ok_def)

lemma j_loop_ok:
  assumes "row_ok R a b alo blo bhi i j2len"
    and "alo \<le> i" and "i < ahi"
    and "\<forall>j \<in> set js. R (a ! i) (b ! j)"
    and "row_ok R a b alo blo bhi (Suc i) newj2len"
    and "match_ok R a b alo ahi blo bhi best"
  shows "row_ok R a b alo blo bhi (Suc i) (fst (j_loop i blo bhi j2len js (newj2len, best)))
       \<and> match_ok R a b alo ahi blo bhi (snd (j_loop i blo bhi j2len js (newj2len, best)))"
  using assms(4-6)
proof (induction js arbitrary: newj2len best)
  case Nil
  then show ?case by simp
next
  case (Cons j js)
  obtain besti bestj bestsize where best: "best = (besti, bestj, bestsize)" by (cases best)
  from Cons.prems(1) have Rj: "R (a ! i) (b ! j)" and Rjs: "\<forall>j \<in> set js. R (a ! i) (b ! j)"
    by auto
  show ?case
  proof (cases "j < blo")
    case True
    then show ?thesis unfolding best
      using Cons.IH[OF Rjs Cons.prems(2) Cons.prems(3)[unfolded best]] by simp
  next
    case nlo: False
    show ?thesis
    proof (cases "j \<ge> bhi")
      case True
      then show ?thesis unfolding best using nlo Cons.prems(2,3) best by simp
    next
      case nhi: False
      define prev where "prev = (if j = 0 then 0 else (case j2len (j - 1) of None \<Rightarrow> 0 | Some v \<Rightarrow> v))"
      define k where "k = prev + 1"
      have prev_ok: "prev \<le> i - alo \<and> prev \<le> j - blo
                     \<and> (\<forall>t<prev. R (a ! (i - 1 - t)) (b ! (j - 1 - t)))"
      proof (cases "j = 0 \<or> j2len (j - 1) = None")
        case True
        then have "prev = 0" unfolding prev_def by auto
        then show ?thesis by simp
      next
        case False
        then obtain v where v: "j \<noteq> 0" "j2len (j - 1) = Some v" by auto
        then have pv: "prev = v" unfolding prev_def by simp
        from assms(1) v(2) have r: "blo \<le> j - 1" "0 < v" "v \<le> i - alo" "v \<le> (j - 1) + 1 - blo"
          "\<forall>t<v. R (a ! (i - 1 - t)) (b ! (j - 1 - t))"
          unfolding row_ok_def by blast+
        from r(4) v(1) have "v \<le> j - blo" by simp
        with r pv show ?thesis by simp
      qed
      have kpos: "0 < k" unfolding k_def by simp
      have kb: "k \<le> Suc i - alo" "k \<le> j + 1 - blo"
        using prev_ok assms(2) nlo unfolding k_def by auto
      have kR: "R (a ! (i - t)) (b ! (j - t))" if "t < k" for t
      proof (cases t)
        case 0
        then show ?thesis using Rj by simp
      next
        case (Suc t')
        then have "t' < prev" using that unfolding k_def by simp
        then have "R (a ! (i - 1 - t')) (b ! (j - 1 - t'))" using prev_ok by blast
        then show ?thesis unfolding Suc by simp
      qed
      have new_row: "row_ok R a b alo blo bhi (Suc i) (newj2len(j \<mapsto> k))"
        unfolding row_ok_def
      proof (intro allI impI)
        fix j' k'
        assume h: "(newj2len(j \<mapsto> k)) j' = Some k'"
        show "blo \<le> j' \<and> j' < bhi \<and> 0 < k' \<and> k' \<le> Suc i - alo \<and> k' \<le> j' + 1 - blo
              \<and> (\<forall>t<k'. R (a ! (Suc i - 1 - t)) (b ! (j' - t)))"
        proof (cases "j' = j")
          case True
          then have "k' = k" using h by simp
          then show ?thesis unfolding True using nlo nhi kpos kb kR by simp
        next
          case False
          then have "newj2len j' = Some k'" using h by simp
          then show ?thesis using Cons.prems(2) unfolding row_ok_def by blast
        qed
      qed
      have new_best: "match_ok R a b alo ahi blo bhi (i + 1 - k, j + 1 - k, k)"
      proof -
        have "R (a ! (i + 1 - k + t)) (b ! (j + 1 - k + t))" if "t < k" for t
        proof -
          have "k - 1 - t < k" using that by simp
          then have r: "R (a ! (i - (k - 1 - t))) (b ! (j - (k - 1 - t)))" by (rule kR)
          have e1: "i + 1 - k + t = i - (k - 1 - t)" using that kb(1) assms(2) by simp
          have e2: "j + 1 - k + t = j - (k - 1 - t)" using that kb(2) nlo by simp
          show ?thesis unfolding e1 e2 by (rule r)
        qed
        then show ?thesis unfolding match_ok_def
          using kpos kb assms(2,3) nlo nhi by auto
      qed
      have step: "j_loop i blo bhi j2len (j # js) (newj2len, best)
            = j_loop i blo bhi j2len js (newj2len(j \<mapsto> k),
                 if k > bestsize then (i + 1 - k, j + 1 - k, k) else (besti, bestj, bestsize))"
        unfolding best using nlo nhi by (simp add: Let_def k_def prev_def)
      have b': "match_ok R a b alo ahi blo bhi
                 (if k > bestsize then (i + 1 - k, j + 1 - k, k) else (besti, bestj, bestsize))"
        using new_best Cons.prems(3) unfolding best by simp
      show ?thesis unfolding step by (rule Cons.IH[OF Rjs new_row b'])
    qed
  qed
qed

lemma dp_ok:
  assumes "\<forall>c j. j \<in> set (dict_get_default b2j c []) \<longrightarrow> R c (b ! j)"
    and "n \<le> ahi"
  shows "alo \<le> n \<longrightarrow>
         row_ok R a b alo blo bhi n (fst (foldl (i_step a b2j blo bhi) (Map.empty, (alo, blo, 0)) [alo..<n]))
       \<and> match_ok R a b alo ahi blo bhi (snd (foldl (i_step a b2j blo bhi) (Map.empty, (alo, blo, 0)) [alo..<n]))"
  using assms(2)
proof (induction n)
  case 0
  show ?case by (simp add: row_ok_empty match_ok_def)
next
  case (Suc n)
  show ?case
  proof (cases "alo \<le> n")
    case False
    then show ?thesis by (auto simp: row_ok_empty match_ok_def)
  next
    case True
    let ?st = "foldl (i_step a b2j blo bhi) (Map.empty, (alo, blo, 0)) [alo..<n]"
    from Suc.prems have n: "n < ahi" "n \<le> ahi" by auto
    from Suc.IH[OF n(2)] True have ih: "row_ok R a b alo blo bhi n (fst ?st)"
      "match_ok R a b alo ahi blo bhi (snd ?st)" by auto
    have fold: "foldl (i_step a b2j blo bhi) (Map.empty, (alo, blo, 0)) [alo..<Suc n]
                = j_loop n blo bhi (fst ?st) (dict_get_default b2j (a ! n) []) (Map.empty, snd ?st)"
      using True by (simp add: i_step_def)
    have R: "\<forall>j \<in> set (dict_get_default b2j (a ! n) []). R (a ! n) (b ! j)"
      using assms(1) by blast
    show ?thesis unfolding fold
      using j_loop_ok[OF ih(1) True n(1) R row_ok_empty ih(2)] by simp
  qed
qed

lemma extend_left_ok:
  assumes "\<forall>x. R x x"
  shows "match_ok R a b alo ahi blo bhi m \<Longrightarrow> match_ok R a b alo ahi blo bhi (extend_left a b alo blo ok m)"
proof (induction a b alo blo ok m rule: extend_left.induct)
  case (1 a b alo blo ok besti bestj bestsize)
  show ?case
  proof (cases "besti > alo \<and> bestj > blo \<and> ok (b ! (bestj - 1)) \<and> a ! (besti - 1) = b ! (bestj - 1)")
    case False
    then show ?thesis using "1.prems" by (subst extend_left.simps) auto
  next
    case True
    from "1.prems" True have pos: "0 < bestsize" "alo \<le> besti" "besti + bestsize \<le> ahi"
      "blo \<le> bestj" "bestj + bestsize \<le> bhi"
      and eqs: "\<forall>t<bestsize. R (a ! (besti + t)) (b ! (bestj + t))"
      unfolding match_ok_def by auto
    have "R (a ! (besti - 1 + t)) (b ! (bestj - 1 + t))" if "t < bestsize + 1" for t
    proof (cases t)
      case 0
      then show ?thesis using True assms by simp
    next
      case (Suc t')
      then have "t' < bestsize" using that by simp
      then have "R (a ! (besti + t')) (b ! (bestj + t'))" using eqs by blast
      moreover have "besti - 1 + t = besti + t'" "bestj - 1 + t = bestj + t'"
        using True Suc by auto
      ultimately show ?thesis by simp
    qed
    then have "match_ok R a b alo ahi blo bhi (besti - 1, bestj - 1, bestsize + 1)"
      unfolding match_ok_def using True pos by auto
    then have "match_ok R a b alo ahi blo bhi (extend_left a b alo blo ok (besti - 1, bestj - 1, bestsize + 1))"
      using "1.IH" True by blast
    then show ?thesis using True by (subst extend_left.simps) simp
  qed
qed

lemma extend_right_ok:
  assumes "\<forall>x. R x x"
  shows "match_ok R a b alo ahi blo bhi m \<Longrightarrow> match_ok R a b alo ahi blo bhi (extend_right a b ahi bhi ok m)"
proof (induction a b ahi bhi ok m rule: extend_right.induct)
  case (1 a b ahi bhi ok besti bestj bestsize)
  show ?case
  proof (cases "besti + bestsize < ahi \<and> bestj + bestsize < bhi \<and> ok (b ! (bestj + bestsize))
         \<and> a ! (besti + bestsize) = b ! (bestj + bestsize)")
    case False
    then show ?thesis using "1.prems" by (subst extend_right.simps) auto
  next
    case True
    from "1.prems" have lo: "alo \<le> besti" "blo \<le> bestj"
      and eqs: "\<forall>t<bestsize. R (a ! (besti + t)) (b ! (bestj + t))"
      unfolding match_ok_def by auto
    have "R (a ! (besti + t)) (b ! (bestj + t))" if "t < bestsize + 1" for t
    proof (cases "t < bestsize")
      case True
      then show ?thesis using eqs by blast
    next
      case False
      then have "t = bestsize" using that by simp
      then show ?thesis using True assms by simp
    qed
    then have "match_ok R a b alo ahi blo bhi (besti, bestj, bestsize + 1)"
      unfolding match_ok_def using True lo by auto
    then have "match_ok R a b alo ahi blo bhi (extend_right a b ahi bhi ok (besti, bestj, bestsize + 1))"
      using "1.IH" True by blast
    then show ?thesis using True by (subst extend_right.simps) simp
  qed
qed

lemma find_longest_match_ok:
  assumes "\<forall>x. R x x"
    and "\<forall>c j. j \<in> set (dict_get_default b2j c []) \<longrightarrow> R c (b ! j)"
  shows "match_ok R a b alo ahi blo bhi (find_longest_match a b b2j isbjunk alo ahi blo bhi)"
proof -
  let ?dp = "snd (foldl (i_step a b2j blo bhi) (Map.empty, (alo, blo, 0)) [alo..<ahi])"
  have "match_ok R a b alo ahi blo bhi ?dp"
  proof (cases "alo \<le> ahi")
    case True
    then show ?thesis using dp_ok[OF assms(2), of ahi ahi alo a blo bhi] by simp
  next
    case False
    then show ?thesis by (simp add: match_ok_def)
  qed
  then show ?thesis
    unfolding find_longest_match_def Let_def
    by (intro extend_right_ok[where R = R, OF assms(1)] extend_left_ok[where R = R, OF assms(1)])
qed

lemma find_longest_match_bounds:
  assumes "find_longest_match a b b2j isbjunk alo ahi blo bhi = (i, j, k)" and "k \<noteq> 0"
  shows "alo \<le> i \<and> i + k \<le> ahi \<and> blo \<le> j \<and> j + k \<le> bhi"
  using find_longest_match_ok[of "\<lambda>_ _. True" b2j b a alo ahi blo bhi isbjunk] assms
  unfolding match_ok_def by auto

text \<open>
  The loop of \<open>get_matching_blocks\<close> over the list of windows still to be examined. The
  source pops the last element of \<open>queue\<close> and appends at its end; here the head of the
  list is that end.
\<close>

function matching_loop ::
  "string \<Rightarrow> string \<Rightarrow> (char, nat list) dict \<Rightarrow> (char \<Rightarrow> bool) \<Rightarrow> (nat \<times> nat \<times> nat \<times> nat) list
     \<Rightarrow> match list \<Rightarrow> match list" where
  "matching_loop a b b2j isbjunk [] matching_blocks = matching_blocks"
| "matching_loop a b b2j isbjunk ((alo, ahi, blo, bhi) # queue) matching_blocks =
     (case find_longest_match a b b2j isbjunk alo ahi blo bhi of
        (i, j, k) \<Rightarrow>
          if k \<noteq> 0
          then
            let queue = (if alo < i \<and> blo < j then (alo, i, blo, j) # queue else queue);
                queue = (if i + k < ahi \<and> j + k < bhi then (i + k, ahi, j + k, bhi) # queue
                         else queue)
            in matching_loop a b b2j isbjunk queue (matching_blocks @ [(i, j, k)])
          else matching_loop a b b2j isbjunk queue matching_blocks)"
  by pat_completeness auto
termination
proof (relation "measure (\<lambda>(a, b, b2j, isbjunk, queue, blocks).
          sum_list (map (\<lambda>(alo, ahi, blo, bhi). 2 * (ahi - alo) + 1) queue))", goal_cases)
  case 1
  then show ?case by simp
next
  case (2 a b b2j isbjunk alo ahi blo bhi queue matching_blocks x1 x2 x1a x2a xa xb)
  then show ?case
    using find_longest_match_bounds[of a b b2j isbjunk alo ahi blo bhi x1 x1a x2a]
    by auto
next
  case (3 a b b2j isbjunk alo ahi blo bhi queue matching_blocks x1 x2 x1a x2a)
  then show ?case by simp
qed

declare matching_loop.simps [simp del]

text \<open>
  The loop that merges adjacent blocks of the sorted list, \<open>get_matching_blocks\<close> with its
  final sentinel \<open>(la, lb, 0)\<close>, \<open>_calculate_ratio\<close> and \<open>ratio\<close>. Python computes
  \<open>2.0 * matches / length\<close> in binary floating point; that division is correctly rounded,
  so on strings shorter than \<open>2^26\<close> characters two ratios compare as the exact fractions do,
  and a ratio exceeds the literal \<open>0.6\<close> exactly when the fraction exceeds 3/5. The model
  keeps the exact fraction.
\<close>

fun collapse_loop :: "match list \<Rightarrow> match \<Rightarrow> match list \<Rightarrow> match \<times> match list" where
  "collapse_loop [] cur non_adjacent = (cur, non_adjacent)"
| "collapse_loop ((i2, j2, k2) # rest) (i1, j1, k1) non_adjacent =
     (if i1 + k1 = i2 \<and> j1 + k1 = j2
      then collapse_loop rest (i1, j1, k1 + k2) non_adjacent
      else collapse_loop rest (i2, j2, k2)
             (if k1 \<noteq> 0 then non_adjacent @ [(i1, j1, k1)] else non_adjacent))"

definition get_matching_blocks :: "string \<Rightarrow> string \<Rightarrow> match list" where
  "get_matching_blocks a b =
     (let la = length a; lb = length b;
          matching_blocks = matching_loop a b (chain_b b) (\<lambda>c. False) [(0, la, 0, lb)] [];
          matching_blocks = sort matching_blocks
      in (case collapse_loop matching_blocks (0, 0, 0) [] of
            ((i1, j1, k1), non_adjacent) \<Rightarrow>
              (if k1 \<noteq> 0 then non_adjacent @ [(i1, j1, k1)] else non_adjacent) @ [(la, lb, 0)]))"

definition calculate_ratio :: "nat \<Rightarrow> nat \<Rightarrow> rat" where
  "calculate_ratio matches len = (if len \<noteq> 0 then 2 * of_nat matches / of_nat len else 1)"

definition ratio :: "string \<Rightarrow> string \<Rightarrow> rat" where
  "ratio a b =
     (let matches = sum_list (map (\<lambda>(i, j, k). k) (get_matching_blocks a b))
      in calculate_ratio matches (length a + length b))"

section \<open>Fuzzy client and folder matching (core/routing_engine.py)\<close>

text \<open>The dict \<open>{'folder': ..., 'ratio': ..., 'full_path': ...}\<close> recorded for a client.\<close>

record client_match =
  m_folder :: string
  m_ratio :: rat
  m_full_path :: string

text \<open>\<open>d[k] = v\<close>: an existing key keeps its position.\<close>

fun dict_set :: "('k, 'v) dict \<Rightarrow> 'k \<Rightarrow> 'v \<Rightarrow> ('k, 'v) dict" where
  "dict_set [] k v = [(k, v)]"
| "dict_set ((k', v') # d) k v = (if k' = k then (k', v) # d else (k', v') # dict_set d k v)"

text \<open>
  The inner loop of \<open>auto_match_clients\<close> over the folders, from \<open>best_match = None\<close> and
  \<open>best_ratio = 0\<close>, and the outer loop over the clients. \<open>if best_match:\<close> is false for
  \<open>None\<close> and for the empty string. Nothing in the body raises.
\<close>

fun best_folder_loop :: "string \<Rightarrow> string list \<Rightarrow> string option \<times> rat \<Rightarrow> string option \<times> rat" where
  "best_folder_loop client_name [] st = st"
| "best_folder_loop client_name (folder # rest) (best_match, best_ratio) =
     (let r = ratio (lower client_name) (lower folder)
      in if r > best_ratio \<and> r > 6 / 10
         then best_folder_loop client_name rest (Some folder, r)
         else best_folder_loop client_name rest (best_match, best_ratio))"

fun clients_loop ::
  "os_env \<Rightarrow> config \<Rightarrow> (string, string) dict \<Rightarrow> string list \<Rightarrow> string list
     \<Rightarrow> (string, client_match) dict \<Rightarrow> (string, client_match) dict" where
  "clients_loop os cfg existing_mappings folder_list [] matches = matches"
| "clients_loop os cfg existing_mappings folder_list (client_name # rest) matches =
     (if dict_contains existing_mappings client_name
      then clients_loop os cfg existing_mappings folder_list rest matches
      else
        (case best_folder_loop client_name folder_list (None, 0) of
           (best_match, best_ratio) \<Rightarrow>
             (case best_match of
                None \<Rightarrow> clients_loop os cfg existing_mappings folder_list rest matches
              | Some f \<Rightarrow>
                  if f = [] then clients_loop os cfg existing_mappings folder_list rest matches
                  else
                    let art_root = get_art_root_path cfg
                    in clients_loop os cfg existing_mappings folder_list rest
                         (dict_set matches client_name
                            \<lparr> m_folder = f, m_ratio = best_ratio,
                              m_full_path = path_join os art_root f \<rparr>))))"

definition auto_match_clients ::
  "os_env \<Rightarrow> config \<Rightarrow> string list \<Rightarrow> string list \<Rightarrow> (string, client_match) dict" where
  "auto_match_clients os cfg clients folder_list =
     clients_loop os cfg (get_client_art_folders cfg) folder_list clients []"

text \<open>
  Measures used to reason about \<open>get_matching_blocks\<close>: the total size of a list of
  blocks, the lengths of a window in \<open>a\<close> and in \<open>b\<close>, and the statement that a window
  covers two equal segments.
\<close>

type_synonym window = "nat \<times> nat \<times> nat \<times> nat"

definition blocks_size :: "match list \<Rightarrow> nat" where
  "blocks_size ms = sum_list (map (\<lambda>(i, j, k). k) ms)"

fun span_a :: "window \<Rightarrow> nat" where
  "span_a (alo, ahi, blo, bhi) = ahi - alo"

fun span_b :: "window \<Rightarrow> nat" where
  "span_b (alo, ahi, blo, bhi) = bhi - blo"

fun same_segment :: "string \<Rightarrow> string \<Rightarrow> window \<Rightarrow> bool" where
  "same_segment a b (alo, ahi, blo, bhi) =
     (ahi - alo = bhi - blo \<and> (\<forall>t < ahi - alo. a ! (alo + t) = b ! (blo + t)))"

section \<open>Verified properties\<close>

subsection \<open>Rule matching\<close>

lemma criteria_satisfied_iff:
  "criteria_satisfied rc jc \<longleftrightarrow> (\<forall>(k, v) \<in> set rc. dict_get jc k = Some v)"
  by (induction rc jc rule: criteria_satisfied.induct) auto

lemma routing_criteria_no_sentinel:
  assumes "dict_get (get_routing_criteria j) k = Some v"
  shows "v \<noteq> ''None'' \<and> v \<noteq> ''No'' \<and> v \<noteq> ''''"
proof -
  from assms have "(k, v) \<in> set (get_routing_criteria j)"
    unfolding dict_get_def by (rule map_of_SomeD)
  then show ?thesis
    unfolding get_routing_criteria_def Let_def by auto
qed

text \<open>
  C1. A rule matches a job iff its criteria dict is non-empty and every one of its entries
  is found, with the same value, in the job's derived criteria; nothing is asked of the
  job's other criteria. A rule with empty criteria matches no job.
\<close>

theorem matches_job_subset_test:
  "(matches_job r j \<longleftrightarrow>
      criteria r \<noteq> [] \<and>
      (\<forall>(k, v) \<in> set (criteria r). dict_get (get_routing_criteria j) k = Some v))
   \<and> (criteria r = [] \<longrightarrow> \<not> matches_job r j)"
  by (simp add: matches_job_def criteria_satisfied_iff)

lemmas example_defs = example_job_def example_rule_def example_config_def example_os_def
  default_job_def from_dict_def configured_rules_def dict_get_def dict_get_default_def
  get_routing_criteria_def matches_job_def

text \<open>
  C1 at a concrete input: the rule \<open>{Finish: Matte}\<close> matches a job whose derived criteria
  also hold \<open>Print Mode\<close>, \<open>Media Group\<close> and \<open>Job Type\<close>.
\<close>

theorem matches_job_subset_test_witness:
  "matches_job (from_dict ''now'' (example_rule ''A'' ''Normal'' [(''Finish'', ''Matte'')])) example_job"
proof -
  let ?r = "from_dict ''now'' (example_rule ''A'' ''Normal'' [(''Finish'', ''Matte'')])"
  have "criteria ?r \<noteq> [] \<and>
        (\<forall>(k, v) \<in> set (criteria ?r). dict_get (get_routing_criteria example_job) k = Some v)"
    by (simp add: example_job_def example_rule_def default_job_def from_dict_def dict_get_def get_routing_criteria_def)
  then show ?thesis using matches_job_subset_test[of ?r example_job] by blast
qed

subsection \<open>Priority order among matching rules\<close>

lemma find_matching_rules_filter:
  "find_matching_rules j xs acc = acc @ filter (\<lambda>(i, r). matches_job r j) xs"
  by (induction xs arbitrary: acc) auto

lemma hd_filter_hd: "xs \<noteq> [] \<Longrightarrow> P (hd xs) \<Longrightarrow> hd (filter P xs) = hd xs"
  by (cases xs) auto

lemma hd_sort_key_first_min:
  fixes f :: "'a \<Rightarrow> int"
  assumes "xs \<noteq> []"
  shows "hd (sort_key f xs) = hd (filter (\<lambda>x. f x = Min (f ` set xs)) xs)"
proof -
  let ?ys = "sort_key f xs"
  from assms have ne: "?ys \<noteq> []" by (metis length_0_conv length_sort)
  then obtain y ys where ys: "?ys = y # ys" by (cases ?ys) auto
  have srt: "sorted (map f ?ys)" by (rule sorted_sort_key)
  have "\<forall>z \<in> set ?ys. f y \<le> f z" using srt unfolding ys by auto
  then have le: "\<forall>z \<in> set xs. f y \<le> f z" by simp
  have "y \<in> set ?ys" unfolding ys by simp
  then have yin: "y \<in> set xs" by simp
  have m: "Min (f ` set xs) = f y"
    by (rule Min_eqI) (use le yin in auto)
  have "hd (filter (\<lambda>x. f x = f y) ?ys) = y" unfolding ys by simp
  moreover have "filter (\<lambda>x. f x = f y) ?ys = filter (\<lambda>x. f x = f y) xs"
    by (rule sort_key_stable)
  moreover have "hd ?ys = y" unfolding ys by simp
  ultimately show ?thesis unfolding m by simp
qed

lemma neg_min_iff_max:
  fixes key :: "'a \<Rightarrow> int"
  assumes "x \<in> set xs"
  shows "(- key x = Min ((\<lambda>y. - key y) ` set xs)) \<longleftrightarrow> (key x = Max (key ` set xs))"
proof -
  have f1: "finite ((\<lambda>y. - key y) ` set xs)" "(\<lambda>y. - key y) ` set xs \<noteq> {}"
    and f2: "finite (key ` set xs)" "key ` set xs \<noteq> {}"
    using assms by auto
  have "(- key x = Min ((\<lambda>y. - key y) ` set xs)) \<longleftrightarrow> (\<forall>y \<in> set xs. key y \<le> key x)"
    using Min_eq_iff[OF f1, of "- key x"] assms by auto
  also have "\<dots> \<longleftrightarrow> (key x = Max (key ` set xs))"
    using Max_eq_iff[OF f2, of "key x"] assms by auto
  finally show ?thesis .
qed

lemma hd_list_sort_reverse:
  assumes "xs \<noteq> []"
  shows "hd (list_sort_reverse key xs) = hd (filter (\<lambda>x. key x = Max (key ` set xs)) xs)"
proof -
  have "filter (\<lambda>x. - key x = Min ((\<lambda>y. - key y) ` set xs)) xs
        = filter (\<lambda>x. key x = Max (key ` set xs)) xs"
    by (rule filter_cong) (auto simp: neg_min_iff_max)
  then show ?thesis
    unfolding list_sort_reverse_def using hd_sort_key_first_min[OF assms, of "\<lambda>x. - key x"] by simp
qed

lemma list_sort_reverse_stable:
  "filter (\<lambda>x. key x = k) (list_sort_reverse key xs) = filter (\<lambda>x. key x = k) xs"
proof -
  have "filter (\<lambda>x. - key x = - k) (sort_key (\<lambda>x. - key x) xs) = filter (\<lambda>x. - key x = - k) xs"
    by (rule sort_key_stable)
  then show ?thesis unfolding list_sort_reverse_def by simp
qed

lemma list_sort_reverse_descending:
  "sorted_wrt (\<lambda>a b. key a \<ge> key b) (list_sort_reverse key xs)"
proof -
  have "sorted (map (\<lambda>x. - key x) (sort_key (\<lambda>x. - key x) xs))" by (rule sorted_sort_key)
  then show ?thesis unfolding list_sort_reverse_def
    by (simp add: sorted_wrt_map)
qed

lemma list_sort_reverse_length: "length (list_sort_reverse key xs) = length xs"
  by (simp add: list_sort_reverse_def)

lemma list_sort_reverse_set: "set (list_sort_reverse key xs) = set xs"
  by (simp add: list_sort_reverse_def)

lemma matching_pairs_snd:
  "map snd (filter (\<lambda>(i, r). P r) (enumerate n rs)) = filter P rs"
  by (induction rs arbitrary: n) auto

lemma get_priority_weight_cases:
  "get_priority_weight r =
     (if priority r = ''High'' then 3 else if priority r = ''Low'' then 1 else 2)"
  by (simp add: get_priority_weight_def dict_get_default_def priority_weights_def)

lemma snd_hd_selected:
  assumes "mp \<noteq> []"
  shows "snd (hd (if length mp > 1 then list_sort_reverse (\<lambda>x. get_priority_weight (snd x)) mp else mp))
     = hd (filter (\<lambda>r. get_priority_weight r = Max (get_priority_weight ` set (map snd mp))) (map snd mp))"
    (is "snd (hd ?sel) = hd (filter ?P (map snd mp))")
proof -
  let ?w = "\<lambda>x. get_priority_weight (snd x)"
  have img: "?w ` set mp = get_priority_weight ` set (map snd mp)" by (simp add: image_image)
  have flt: "filter ?P (map snd mp) = map snd (filter (\<lambda>x. ?w x = Max (?w ` set mp)) mp)"
    unfolding img by (simp add: filter_map comp_def)
  have ex: "Max (?w ` set mp) \<in> ?w ` set mp" using assms by (intro Max_in) auto
  then obtain x0 where "x0 \<in> set mp" "?w x0 = Max (?w ` set mp)" by auto
  then have fne: "filter (\<lambda>x. ?w x = Max (?w ` set mp)) mp \<noteq> []"
    unfolding filter_empty_conv by blast
  have gen: "hd (list_sort_reverse ?w mp) = hd (filter (\<lambda>x. ?w x = Max (?w ` set mp)) mp)"
    by (rule hd_list_sort_reverse[OF assms])
  show ?thesis
  proof (cases "length mp > 1")
    case True
    have "hd (filter ?P (map snd mp)) = snd (hd (filter (\<lambda>x. ?w x = Max (?w ` set mp)) mp))"
      unfolding flt by (rule hd_map[OF fne])
    then show ?thesis using True gen by simp
  next
    case False
    with assms obtain x where mp: "mp = [x]" by (cases mp) auto
    show ?thesis unfolding mp by simp
  qed
qed

lemma determine_target_folder_unfold:
  assumes "printer j \<noteq> []"
  shows "determine_target_folder now cfg j =
     (let routing_rules_data = dict_get_default (routing_rules cfg) (printer j) [];
          mp = filter (\<lambda>(i, r). matches_job r j) (enumerate 0 (map (from_dict now) routing_rules_data))
      in if routing_rules_data = [] then None
         else if mp = [] then None
         else (case (if length mp > 1 then list_sort_reverse (\<lambda>x. get_priority_weight (snd x)) mp else mp) of
                 (rule_index, selected_rule) # _ \<Rightarrow> Some (target_folder selected_rule)
               | [] \<Rightarrow> None))"
proof -
  have grr: "get_routing_rules cfg (printer j)
             = Printer_rules (dict_get_default (routing_rules cfg) (printer j) [])"
    using assms by (simp add: get_routing_rules_def)
  have fm: "\<And>xs. find_matching_rules j xs [] = filter (\<lambda>(i, r). matches_job r j) xs"
    by (simp add: find_matching_rules_filter)
  show ?thesis
    unfolding determine_target_folder_def grr rules_result.case Let_def fm ..
qed

lemma determine_target_folder_char:
  assumes "printer j \<noteq> []"
  shows "determine_target_folder now cfg j =
     (let matching = filter (\<lambda>r. matches_job r j) (configured_rules now cfg (printer j))
      in if matching = [] then None
         else Some (target_folder (hd (filter (\<lambda>r. get_priority_weight r = Max (get_priority_weight ` set matching)) matching))))"
proof -
  define data where "data = dict_get_default (routing_rules cfg) (printer j) []"
  define mp where "mp = filter (\<lambda>(i, r). matches_job r j) (enumerate 0 (map (from_dict now) data))"
  define matching where "matching = filter (\<lambda>r. matches_job r j) (map (from_dict now) data)"
  define sel where "sel = (if length mp > 1 then list_sort_reverse (\<lambda>x. get_priority_weight (snd x)) mp else mp)"
  define best where "best = hd (filter (\<lambda>r. get_priority_weight r = Max (get_priority_weight ` set matching)) matching)"
  have snd_mp: "map snd mp = matching"
    unfolding mp_def matching_def by (rule matching_pairs_snd)
  have cr: "configured_rules now cfg (printer j) = map (from_dict now) data"
    unfolding configured_rules_def data_def ..
  have unf: "determine_target_folder now cfg j =
      (if data = [] then None else if mp = [] then None
       else (case sel of (rule_index, selected_rule) # _ \<Rightarrow> Some (target_folder selected_rule) | [] \<Rightarrow> None))"
    unfolding sel_def mp_def data_def
    using determine_target_folder_unfold[OF assms, of now cfg] unfolding Let_def .
  have goal: "determine_target_folder now cfg j = (if matching = [] then None else Some (target_folder best))"
  proof (cases "mp = []")
    case True
    then have m0: "matching = []" using snd_mp by simp
    have "determine_target_folder now cfg j = None"
      unfolding unf using True by simp
    then show ?thesis using m0 by simp
  next
    case False
    then have mne: "matching \<noteq> []" using snd_mp by auto
    then have dne: "data \<noteq> []" unfolding matching_def by auto
    have "length sel = length mp" unfolding sel_def by (simp add: list_sort_reverse_length)
    with False have selne: "sel \<noteq> []" by auto
    then obtain i r rest where sel: "sel = (i, r) # rest" by (cases sel) auto
    have "r = snd (hd sel)" unfolding sel by simp
    also have "\<dots> = best"
      unfolding best_def sel_def using snd_hd_selected[OF False] unfolding snd_mp .
    finally have r: "r = best" .
    have "determine_target_folder now cfg j = Some (target_folder r)"
      unfolding unf sel using False dne by simp
    then show ?thesis using mne r by simp
  qed
  show ?thesis
    unfolding cr Let_def using goal unfolding matching_def best_def .
qed

text \<open>
  C2. When more than one configured rule matches the job, \<open>determine_target_folder\<close>
  returns the target folder of the first rule after the matching rules are sorted by priority
  weight, highest first. That sort is stable (rules of equal weight keep their configured
  order), so the winner is the earliest matching rule among those of greatest weight. The
  weights are High 3, Low 1 and 2 for Normal and for any other priority string. The job names
  a printer, as job validation requires.
\<close>

theorem determine_target_folder_priority_order:
  assumes "printer j \<noteq> []"
    and "matching = filter (\<lambda>r. matches_job r j) (configured_rules now cfg (printer j))"
    and "1 < length matching"
  shows "determine_target_folder now cfg j
           = Some (target_folder (hd (list_sort_reverse get_priority_weight matching)))
       \<and> hd (list_sort_reverse get_priority_weight matching)
           = hd (filter (\<lambda>r. get_priority_weight r = Max (get_priority_weight ` set matching)) matching)
       \<and> sorted_wrt (\<lambda>a b. get_priority_weight a \<ge> get_priority_weight b)
            (list_sort_reverse get_priority_weight matching)
       \<and> (\<forall>w. filter (\<lambda>r. get_priority_weight r = w) (list_sort_reverse get_priority_weight matching)
              = filter (\<lambda>r. get_priority_weight r = w) matching)
       \<and> (\<forall>r. get_priority_weight r
              = (if priority r = ''High'' then 3 else if priority r = ''Low'' then 1 else 2))"
proof -
  from assms(3) have ne: "matching \<noteq> []" by auto
  have h: "hd (list_sort_reverse get_priority_weight matching)
           = hd (filter (\<lambda>r. get_priority_weight r = Max (get_priority_weight ` set matching)) matching)"
    by (rule hd_list_sort_reverse[OF ne])
  have d: "determine_target_folder now cfg j
           = Some (target_folder (hd (list_sort_reverse get_priority_weight matching)))"
    unfolding h using determine_target_folder_char[OF assms(1), of now cfg] ne
    unfolding Let_def assms(2)[symmetric] by simp
  show ?thesis
    using d h list_sort_reverse_descending[of get_priority_weight matching]
      list_sort_reverse_stable[of get_priority_weight _ matching] get_priority_weight_cases
    by blast
qed

text \<open>
  C2 at a concrete input: rules A (Normal), B (Normal) and C (Low) all match; A and B tie on
  weight and A, configured first, wins.
\<close>

theorem determine_target_folder_priority_order_witness:
  "printer example_job \<noteq> [] \<and>
   1 < length (filter (\<lambda>r. matches_job r example_job)
         (configured_rules ''now''
            (example_config [example_rule ''A'' ''Normal'' [(''Finish'', ''Matte'')],
                             example_rule ''B'' ''Normal'' [(''Print Mode'', ''Roll'')],
                             example_rule ''C'' ''Low'' [(''Finish'', ''Matte'')]])
            (printer example_job))) \<and>
   determine_target_folder ''now''
     (example_config [example_rule ''A'' ''Normal'' [(''Finish'', ''Matte'')],
                      example_rule ''B'' ''Normal'' [(''Print Mode'', ''Roll'')],
                      example_rule ''C'' ''Low'' [(''Finish'', ''Matte'')]])
     example_job = Some ''A''"
proof -
  let ?cfg = "example_config [example_rule ''A'' ''Normal'' [(''Finish'', ''Matte'')],
                      example_rule ''B'' ''Normal'' [(''Print Mode'', ''Roll'')],
                      example_rule ''C'' ''Low'' [(''Finish'', ''Matte'')]]"
  let ?m = "filter (\<lambda>r. matches_job r example_job) (configured_rules ''now'' ?cfg (printer example_job))"
  have p: "printer example_job \<noteq> []" by (simp add: example_job_def default_job_def)
  have m: "?m = map (from_dict ''now'') [example_rule ''A'' ''Normal'' [(''Finish'', ''Matte'')],
                      example_rule ''B'' ''Normal'' [(''Print Mode'', ''Roll'')],
                      example_rule ''C'' ''Low'' [(''Finish'', ''Matte'')]]"
    by (simp add: example_defs)
  have l: "1 < length ?m" unfolding m by simp
  have "hd (list_sort_reverse get_priority_weight ?m) = from_dict ''now'' (example_rule ''A'' ''Normal'' [(''Finish'', ''Matte'')])"
    unfolding m by (simp add: list_sort_reverse_def get_priority_weight_cases from_dict_def example_rule_def)
  then have "determine_target_folder ''now'' ?cfg example_job = Some ''A''"
    using determine_target_folder_priority_order[OF p refl l]
    by (simp add: from_dict_def example_rule_def)
  with p l show ?thesis by blast
qed

subsection \<open>No match, sentinel values and step results\<close>

lemma determine_target_folder_none_matches:
  assumes "printer j \<noteq> []"
  shows "determine_target_folder now cfg j = None
         \<longleftrightarrow> (\<forall>r \<in> set (configured_rules now cfg (printer j)). \<not> matches_job r j)"
  unfolding determine_target_folder_char[OF assms] Let_def
  by (simp add: filter_empty_conv)

lemma matches_job_criteria_subset:
  "matches_job r j \<longleftrightarrow> criteria r \<noteq> [] \<and> criteria_subset r j"
  by (simp add: matches_job_def criteria_satisfied_iff criteria_subset_def)

text \<open>
  C3. For a job that names a printer, \<open>determine_target_folder\<close> returns \<open>None\<close> exactly
  when the printer has no configured rules, or no rule's criteria pass the subset test against
  the job's derived criteria, or every rule that passes the subset test (every candidate) has
  empty criteria; equivalently, when no rule matches. On \<open>None\<close> the hotfolder step uses the
  folder name \<open>"Default"\<close>: a successful routing reports the path of \<open>Default\<close> under the
  printer's folder.
\<close>

theorem determine_target_folder_none_iff:
  assumes "printer j \<noteq> []"
    and "rules = configured_rules (now_iso os) cfg (printer j)"
  shows "(determine_target_folder (now_iso os) cfg j = None \<longleftrightarrow>
            rules = []
            \<or> (\<forall>r \<in> set rules. \<not> criteria_subset r j)
            \<or> (\<forall>r \<in> set rules. criteria_subset r j \<longrightarrow> criteria r = []))
       \<and> (determine_target_folder (now_iso os) cfg j = None \<longleftrightarrow>
            (\<forall>r \<in> set rules. \<not> matches_job r j))
       \<and> (determine_target_folder (now_iso os) cfg j = None \<longrightarrow>
            hotfolder_target_folder os cfg j = ''Default''
            \<and> (success (route_to_hotfolder os cfg fpath fname j) = Some True \<longrightarrow>
                 path (route_to_hotfolder os cfg fpath fname j)
                   = Some (path_join os
                             (path_join os (get_hotfolder_root cfg)
                                (get_printer_folder_name cfg (printer j)))
                             ''Default'')))"
proof -
  have a: "determine_target_folder (now_iso os) cfg j = None \<longleftrightarrow>
            (\<forall>r \<in> set rules. \<not> matches_job r j)"
    unfolding assms(2) by (rule determine_target_folder_none_matches[OF assms(1)])
  have b: "(\<forall>r \<in> set rules. \<not> matches_job r j) \<longleftrightarrow>
            rules = []
            \<or> (\<forall>r \<in> set rules. \<not> criteria_subset r j)
            \<or> (\<forall>r \<in> set rules. criteria_subset r j \<longrightarrow> criteria r = [])"
    unfolding matches_job_criteria_subset by auto
  have c: "hotfolder_target_folder os cfg j = ''Default''"
    if "determine_target_folder (now_iso os) cfg j = None"
    using that by (simp add: hotfolder_target_folder_def)
  have d: "path (route_to_hotfolder os cfg fpath fname j)
             = Some (path_join os (path_join os (get_hotfolder_root cfg)
                       (get_printer_folder_name cfg (printer j))) (hotfolder_target_folder os cfg j))"
    if "success (route_to_hotfolder os cfg fpath fname j) = Some True"
    using that unfolding route_to_hotfolder_def Let_def
    by (simp split: if_splits os_outcome.splits)
  show ?thesis using a b c d by simp
qed

text \<open>
  C3 at a concrete input: a rule with empty criteria and a rule asking for another finish;
  the result is \<open>None\<close> and the file goes to \<open>/hot/Canon/Default\<close>.
\<close>

theorem determine_target_folder_none_iff_witness:
  "printer example_job \<noteq> [] \<and>
   determine_target_folder (now_iso (example_os [''/hot'', ''/hot/Canon'']))
     (example_config [example_rule ''A'' ''High'' [],
                      example_rule ''B'' ''Normal'' [(''Finish'', ''Glossy'')]]) example_job = None \<and>
   route_to_hotfolder (example_os [''/hot'', ''/hot/Canon''])
     (example_config [example_rule ''A'' ''High'' [],
                      example_rule ''B'' ''Normal'' [(''Finish'', ''Glossy'')]])
     ''/in/a.pdf'' ''a.pdf'' example_job
     = \<lparr> success = Some True, path = Some ''/hot/Canon/Default'', error = None \<rparr>"
proof -
  let ?os = "example_os [''/hot'', ''/hot/Canon'']"
  let ?cfg = "example_config [example_rule ''A'' ''High'' [],
                      example_rule ''B'' ''Normal'' [(''Finish'', ''Glossy'')]]"
  have p: "printer example_job \<noteq> []" by (simp add: example_job_def default_job_def)
  have n: "\<forall>r \<in> set (configured_rules (now_iso ?os) ?cfg (printer example_job)). \<not> matches_job r example_job"
    by (simp add: example_defs)
  have dn: "determine_target_folder (now_iso ?os) ?cfg example_job = None"
    using determine_target_folder_none_iff[OF p refl, of ?os ?cfg] n by blast
  then have t: "hotfolder_target_folder ?os ?cfg example_job = ''Default''"
    using determine_target_folder_none_iff[OF p refl, of ?os ?cfg] by blast
  have "route_to_hotfolder ?os ?cfg ''/in/a.pdf'' ''a.pdf'' example_job
     = \<lparr> success = Some True, path = Some ''/hot/Canon/Default'', error = None \<rparr>"
    unfolding route_to_hotfolder_def t
    by (simp add: example_defs get_hotfolder_root_def get_printer_folder_name_def)
  with p dn show ?thesis by blast
qed

lemma determine_target_folder_no_printer:
  "printer j = [] \<Longrightarrow> determine_target_folder now cfg j = None"
  by (simp add: determine_target_folder_def get_routing_rules_def)

lemma strip_empty_iff: "strip s = [] \<longleftrightarrow> (\<forall>c \<in> set s. is_space c)"
proof
  assume "strip s = []"
  then have "\<forall>c \<in> set (dropWhile is_space s). is_space c"
    by (simp add: strip_def dropWhile_eq_Nil_conv)
  then have "dropWhile is_space s = []"
    using hd_dropWhile[of is_space s] by (cases "dropWhile is_space s") auto
  then show "\<forall>c \<in> set s. is_space c" by (simp add: dropWhile_eq_Nil_conv)
next
  assume "\<forall>c \<in> set s. is_space c"
  then have d: "dropWhile is_space s = []" by (simp add: dropWhile_eq_Nil_conv)
  show "strip s = []" unfolding strip_def d by simp
qed

lemma validate_fold_keeps:
  "\<forall>(k, v) \<in> set cs. strip v \<noteq> [] \<Longrightarrow>
   foldl (\<lambda>errs (key, v). if v = [] \<or> strip v = []
                            then errs @ [''Criteria '' @ [CHR 0x27] @ key @ [CHR 0x27] @ '' has empty value'']
                            else errs) errs cs = errs"
proof (induction cs arbitrary: errs)
  case Nil
  then show ?case by simp
next
  case (Cons c cs)
  obtain k v where c: "c = (k, v)" by (cases c)
  from Cons.prems have v: "strip v \<noteq> []" and rest: "\<forall>(k, v) \<in> set cs. strip v \<noteq> []"
    unfolding c by auto
  from v have "v \<noteq> []" by (auto simp: strip_def)
  with v show ?case unfolding c using Cons.IH[OF rest] by simp
qed

lemma validate_rule_accepts:
  assumes "strip (target_folder r) \<noteq> []" and "criteria r \<noteq> []"
    and "priority r \<in> {''High'', ''Normal'', ''Low''}"
    and "\<forall>(k, v) \<in> set (criteria r). strip v \<noteq> []"
  shows "validate_rule r = (True, [])"
  using assms(1-3) unfolding validate_rule_def Let_def
  by (simp add: validate_fold_keeps[OF assms(4)])

text \<open>
  C9. A rule with a criterion whose required value is \<open>"None"\<close>, \<open>"No"\<close> or the empty
  string matches no job, because the job's derived criteria never hold such a value. Rule
  validation still accepts every rule with a non-blank target, a known priority and non-blank
  criteria values, \<open>"None"\<close> and \<open>"No"\<close> included.
\<close>

theorem sentinel_criterion_never_matches:
  "((k, v) \<in> set (criteria r) \<and> v \<in> {''None'', ''No'', ''''} \<longrightarrow>
      dict_get (get_routing_criteria j) k \<noteq> Some v \<and> \<not> matches_job r j)
   \<and> (strip (target_folder r) \<noteq> [] \<and> criteria r \<noteq> []
        \<and> priority r \<in> {''High'', ''Normal'', ''Low''}
        \<and> (\<forall>(k, v) \<in> set (criteria r). strip v \<noteq> [])
      \<longrightarrow> validate_rule r = (True, []))"
proof -
  have a: "dict_get (get_routing_criteria j) k \<noteq> Some v" if "v \<in> {''None'', ''No'', ''''}"
    using routing_criteria_no_sentinel[of j k v] that by auto
  have b: "\<not> matches_job r j" if "(k, v) \<in> set (criteria r)" "v \<in> {''None'', ''No'', ''''}"
  proof
    assume "matches_job r j"
    then have "dict_get (get_routing_criteria j) k = Some v"
      using that(1) by (auto simp: matches_job_def criteria_satisfied_iff split: if_splits)
    with a[OF that(2)] show False by simp
  qed
  show ?thesis using a b validate_rule_accepts[of r] by blast
qed

text \<open>
  C9 at a concrete input: the rule \<open>{Bleed: None}\<close> passes validation and does not match.
\<close>

theorem sentinel_criterion_never_matches_witness:
  "(''Bleed'', ''None'') \<in> set (criteria (from_dict ''now'' (example_rule ''NoBleed'' ''Normal'' [(''Bleed'', ''None'')])))
   \<and> \<not> matches_job (from_dict ''now'' (example_rule ''NoBleed'' ''Normal'' [(''Bleed'', ''None'')])) example_job
   \<and> validate_rule (from_dict ''now'' (example_rule ''NoBleed'' ''Normal'' [(''Bleed'', ''None'')])) = (True, [])"
proof -
  let ?r = "from_dict ''now'' (example_rule ''NoBleed'' ''Normal'' [(''Bleed'', ''None'')])"
  have m: "(''Bleed'', ''None'') \<in> set (criteria ?r)"
    by (simp add: from_dict_def example_rule_def)
  have v: "strip (target_folder ?r) \<noteq> [] \<and> criteria ?r \<noteq> []
        \<and> priority ?r \<in> {''High'', ''Normal'', ''Low''}
        \<and> (\<forall>(k, v) \<in> set (criteria ?r). strip v \<noteq> [])"
    by (simp add: from_dict_def example_rule_def strip_def is_space_def)
  show ?thesis
    using m v sentinel_criterion_never_matches[of "''Bleed''" "''None''" ?r example_job] by blast
qed

text \<open>
  C10. When the hotfolder step reports \<open>False\<close> and the art copy is disabled or reports
  \<open>None\<close>, the overall success of \<open>process_file\<close> is \<open>None\<close>, not \<open>False\<close>: it is
  \<open>False or None\<close>.
\<close>

theorem process_file_overall_success_none:
  assumes "success (route_to_hotfolder os cfg fpath fname j) = Some False"
    and "\<not> is_art_copy_enabled cfg
         \<or> success (copy_to_client_art_folder os cfg fpath fname j) = None"
  shows "success (hotfolder (process_file os cfg fpath fname j)) = Some False
       \<and> success (art_copy (process_file os cfg fpath fname j)) = None
       \<and> overall_success (process_file os cfg fpath fname j) = None
       \<and> overall_success (process_file os cfg fpath fname j) \<noteq> Some False"
  using assms unfolding process_file_def Let_def py_or_def by auto

text \<open>
  C10 at a concrete input: no hotfolder root on disk and a job without a client.
\<close>

theorem process_file_overall_success_none_witness:
  "success (route_to_hotfolder (example_os []) (example_config []) ''/in/a.pdf'' ''a.pdf''
              (example_job \<lparr> client := '''' \<rparr>)) = Some False
   \<and> success (copy_to_client_art_folder (example_os []) (example_config []) ''/in/a.pdf'' ''a.pdf''
              (example_job \<lparr> client := '''' \<rparr>)) = None
   \<and> overall_success (process_file (example_os []) (example_config []) ''/in/a.pdf'' ''a.pdf''
              (example_job \<lparr> client := '''' \<rparr>)) = None"
proof -
  let ?j = "example_job \<lparr> client := '''' \<rparr>"
  have h: "success (route_to_hotfolder (example_os []) (example_config []) ''/in/a.pdf'' ''a.pdf'' ?j) = Some False"
    by (simp add: route_to_hotfolder_def example_defs get_hotfolder_root_def)
  have a: "success (copy_to_client_art_folder (example_os []) (example_config []) ''/in/a.pdf'' ''a.pdf'' ?j) = None"
    by (simp add: copy_to_client_art_folder_def example_defs)
  show ?thesis
    using h a process_file_overall_success_none[OF h disjI2[OF a]] by blast
qed

lemma copy_to_client_art_folder_none_iff:
  "success (copy_to_client_art_folder os cfg fpath fname j) = None \<longleftrightarrow>
     client j = [] \<or> strip (client j) = [] \<or> dict_get (get_client_art_folders cfg) (client j) = None"
  unfolding copy_to_client_art_folder_def Let_def
  by (auto split: option.splits os_outcome.splits)

text \<open>
  C5. The art-copy entry of the result of \<open>process_file\<close> has success \<open>None\<close> exactly when
  art copy is disabled (the entry is then the initial one, the step is not run), or the job's
  client is empty or all whitespace, or the client has no art-folder mapping. When art copy is
  enabled, the client is not blank and its mapped folder does not exist, the entry has success
  \<open>False\<close> and an error message.
\<close>

theorem art_copy_not_applicable_cases:
  "(success (art_copy (process_file os cfg fpath fname j)) = None \<longleftrightarrow>
      \<not> is_art_copy_enabled cfg
      \<or> client j = []
      \<or> (\<forall>c \<in> set (client j). is_space c)
      \<or> dict_get (get_client_art_folders cfg) (client j) = None)
   \<and> (\<not> is_art_copy_enabled cfg \<longrightarrow>
        art_copy (process_file os cfg fpath fname j) = \<lparr> success = None, path = None, error = None \<rparr>)
   \<and> (is_art_copy_enabled cfg
        \<and> \<not> (\<forall>c \<in> set (client j). is_space c)
        \<and> dict_get (get_client_art_folders cfg) (client j) = Some art_folder
        \<and> \<not> path_exists os art_folder
      \<longrightarrow> success (art_copy (process_file os cfg fpath fname j)) = Some False
          \<and> error (art_copy (process_file os cfg fpath fname j))
              = Some (''Client art folder doesn't exist: '' @ art_folder))"
proof -
  have e: "art_copy (process_file os cfg fpath fname j)
           = (if is_art_copy_enabled cfg then copy_to_client_art_folder os cfg fpath fname j
              else \<lparr> success = None, path = None, error = None \<rparr>)"
    unfolding process_file_def Let_def by simp
  have a: "success (art_copy (process_file os cfg fpath fname j)) = None \<longleftrightarrow>
      \<not> is_art_copy_enabled cfg \<or> client j = [] \<or> (\<forall>c \<in> set (client j). is_space c)
      \<or> dict_get (get_client_art_folders cfg) (client j) = None"
    unfolding e using copy_to_client_art_folder_none_iff[of os cfg fpath fname j]
    by (auto simp: strip_empty_iff)
  have b: "art_copy (process_file os cfg fpath fname j) = \<lparr> success = None, path = None, error = None \<rparr>"
    if "\<not> is_art_copy_enabled cfg"
    unfolding e using that by simp
  have c: "success (art_copy (process_file os cfg fpath fname j)) = Some False
          \<and> error (art_copy (process_file os cfg fpath fname j))
              = Some (''Client art folder doesn't exist: '' @ art_folder)"
    if "is_art_copy_enabled cfg" "\<not> (\<forall>c \<in> set (client j). is_space c)"
       "dict_get (get_client_art_folders cfg) (client j) = Some art_folder" "\<not> path_exists os art_folder"
  proof -
    from that(2) have "strip (client j) \<noteq> []" "client j \<noteq> []"
      by (auto simp: strip_empty_iff)
    then show ?thesis unfolding e copy_to_client_art_folder_def Let_def using that by simp
  qed
  show ?thesis using a b c by blast
qed

text \<open>
  C5 at concrete inputs: a mapped folder that does not exist gives \<open>False\<close>; a client of two
  spaces gives \<open>None\<close>.
\<close>

theorem art_copy_not_applicable_cases_witness:
  "is_art_copy_enabled (example_config [])
   \<and> \<not> (\<forall>c \<in> set (client example_job). is_space c)
   \<and> dict_get (get_client_art_folders (example_config [])) (client example_job) = Some ''/art/Acme''
   \<and> \<not> path_exists (example_os []) ''/art/Acme''
   \<and> success (art_copy (process_file (example_os []) (example_config []) ''/in/a.pdf'' ''a.pdf'' example_job))
       = Some False
   \<and> success (art_copy (process_file (example_os []) (example_config []) ''/in/a.pdf'' ''a.pdf''
                 (example_job \<lparr> client := ''  '' \<rparr>))) = None"
proof -
  have h: "is_art_copy_enabled (example_config [])
   \<and> \<not> (\<forall>c \<in> set (client example_job). is_space c)
   \<and> dict_get (get_client_art_folders (example_config [])) (client example_job) = Some ''/art/Acme''
   \<and> \<not> path_exists (example_os []) ''/art/Acme''"
    by (simp add: example_defs is_art_copy_enabled_def get_client_art_folders_def is_space_def)
  have w: "\<forall>c \<in> set (client (example_job \<lparr> client := ''  '' \<rparr>)). is_space c"
    by (simp add: is_space_def)
  show ?thesis
    using h w art_copy_not_applicable_cases[of "example_os []" "example_config []" "''/in/a.pdf''" "''a.pdf''" example_job "''/art/Acme''"]
      art_copy_not_applicable_cases[of "example_os []" "example_config []" "''/in/a.pdf''" "''a.pdf''" "example_job \<lparr> client := ''  '' \<rparr>"]
    by blast
qed

subsection \<open>Filename generation and validation\<close>

lemma str_replace_Nil: "str_replace [] old new = []"
  by (subst str_replace.simps) simp

lemma str_replace_Cons:
  "str_replace (c # cs) old new =
     (if old = [] then c # cs
      else if take (length old) (c # cs) = old
      then new @ str_replace (drop (length old) (c # cs)) old new
      else c # str_replace cs old new)"
  by (subst str_replace.simps) simp

lemma ordered_parts_loop_filter:
  "ordered_parts_loop parts_map include_flags ks acc =
     acc @ map (\<lambda>k. str_replace (str_replace (dict_get_default parts_map k '''') '' '' ''_'') ''&'' ''and'')
               (filter (\<lambda>k. dict_get_default include_flags k True
                            \<and> dict_get_default parts_map k '''' \<noteq> []
                            \<and> lower (dict_get_default parts_map k '''') \<notin> {''none'', ''no''}
                            \<and> \<not> (k = ''size'' \<and> dict_get_default parts_map k '''' = ''x''))
                       ks)"
proof (induction ks arbitrary: acc)
  case Nil
  then show ?case by simp
next
  case (Cons k ks)
  have l: "lower p = [] \<longleftrightarrow> p = []" for p by (simp add: lower_def)
  show ?case
    by (auto simp add: Cons.IH Let_def l)
qed

text \<open>
  C4. \<open>generate\<close> keeps a component of the order exactly when its include flag is true
  (true when absent), its resolved value is non-empty and is not \<open>none\<close> or \<open>no\<close> in any
  letter case, and it is not the size component resolving to \<open>"x"\<close>. The kept values, with
  spaces replaced by underscores and \<open>&\<close> by \<open>and\<close>, are joined by underscores in the order
  given and \<open>.pdf\<close> is appended; when nothing is kept the result is \<open>untitled.pdf\<close>.
\<close>

theorem generate_components:
  fixes today job_data components_order include_flags
  defines "resolved \<equiv> \<lambda>k. dict_get_default (build_parts_map today job_data) k ''''"
  defines "included \<equiv> \<lambda>k. dict_get_default include_flags k True
                            \<and> resolved k \<noteq> []
                            \<and> lower (resolved k) \<notin> {''none'', ''no''}
                            \<and> \<not> (k = ''size'' \<and> resolved k = ''x'')"
  defines "surviving \<equiv> map (\<lambda>k. str_replace (str_replace (resolved k) '' '' ''_'') ''&'' ''and'')
                             (filter included components_order)"
  shows "generate today job_data components_order include_flags
           = (if surviving = [] then ''untitled.pdf'' else str_join ''_'' surviving @ ''.pdf'')"
  unfolding generate_def Let_def ordered_parts_loop_filter surviving_def included_def resolved_def
    default_extension_def
  by simp

text \<open>
  C4 at concrete inputs: bleed \<open>None\<close>, rotation \<open>NONE\<close> and the excluded date are dropped;
  a job with blank dimensions and no bleed gives \<open>untitled.pdf\<close>.
\<close>

theorem generate_components_witness:
  "generate ''01-02-24'' example_job_data
     [''job_number'', ''client'', ''size'', ''bleed'', ''rotation'', ''date''] [(''date'', False)]
     = ''TIT1234_Acme_and_Co_24x36.pdf''
   \<and> generate ''01-02-24'' [(''size_w'', ''''), (''size_h'', '''')] [''size'', ''bleed''] []
     = ''untitled.pdf''"
proof -
  have a: "generate ''01-02-24'' example_job_data
     [''job_number'', ''client'', ''size'', ''bleed'', ''rotation'', ''date''] [(''date'', False)]
     = ''TIT1234_Acme_and_Co_24x36.pdf''"
    unfolding generate_components
    by (simp add: example_job_data_def build_parts_map_def get_value_def
        dict_get_default_def strip_def is_space_def lower_def lower_char_def
        str_replace_Nil str_replace_Cons)
  have b: "generate ''01-02-24'' [(''size_w'', ''''), (''size_h'', '''')] [''size'', ''bleed''] []
     = ''untitled.pdf''"
    unfolding generate_components
    by (simp add: build_parts_map_def get_value_def
        dict_get_default_def strip_def is_space_def lower_def lower_char_def)
  show ?thesis using a b by simp
qed

lemma invalid_chars_loop_filter:
  "invalid_chars_loop cs fname acc
     = acc @ map invalid_char_issue (filter (\<lambda>c. c \<in> set fname) cs)"
  by (induction cs arbitrary: acc) auto

lemma str_contains_iff: "str_contains s sub \<longleftrightarrow> (\<exists>pre post. s = pre @ sub @ post)"
proof (induction s)
  case Nil
  then show ?case by auto
next
  case (Cons c cs)
  show ?case
  proof
    assume "str_contains (c # cs) sub"
    then consider "take (length sub) (c # cs) = sub" | "str_contains cs sub" by auto
    then show "\<exists>pre post. c # cs = pre @ sub @ post"
    proof cases
      case 1
      then have "c # cs = [] @ sub @ drop (length sub) (c # cs)"
        by (metis append_Nil append_take_drop_id)
      then show ?thesis by blast
    next
      case 2
      then obtain pre post where "cs = pre @ sub @ post" using Cons.IH by blast
      then have "c # cs = (c # pre) @ sub @ post" by simp
      then show ?thesis by blast
    qed
  next
    assume "\<exists>pre post. c # cs = pre @ sub @ post"
    then obtain pre post where e: "c # cs = pre @ sub @ post" by blast
    show "str_contains (c # cs) sub"
    proof (cases pre)
      case Nil
      then have "take (length sub) (c # cs) = sub" using e by simp
      then show ?thesis by simp
    next
      case (Cons p pre')
      then have "cs = pre' @ sub @ post" using e by simp
      then have "str_contains cs sub" using Cons.IH by blast
      then show ?thesis by simp
    qed
  qed
qed

lemma validate_filename_issues:
  "snd (validate_filename fname) =
     (if fname = [] then [''Filename is empty'']
      else (if fname = ''.pdf'' then [''Filename contains only extension''] else [])
         @ map invalid_char_issue (filter (\<lambda>c. c \<in> set fname) invalid_chars)
         @ (if length fname > 200 then [''Filename is too long (>200 characters)''] else [])
         @ (if upper (str_replace fname ''.pdf'' '''') \<in> set reserved_names
            then [reserved_issue (upper (str_replace fname ''.pdf'' ''''))] else [])
         @ (if \<exists>pre post. fname = pre @ ''__'' @ post
            then [''Contains double underscores (possible missing data)''] else []))"
  unfolding validate_filename_def Let_def invalid_chars_loop_filter default_extension_def
    str_contains_iff
  by simp

lemma validate_filename_valid:
  "fst (validate_filename fname) \<longleftrightarrow> snd (validate_filename fname) = []"
  unfolding validate_filename_def Let_def by simp

lemma upper_char_dot: "upper_char c = CHR ''.'' \<longleftrightarrow> c = CHR ''.''"
  unfolding upper_char_def by (auto split: option.splits if_splits)

lemma upper_no_dot: "CHR ''.'' \<in> set (upper s) \<longleftrightarrow> CHR ''.'' \<in> set s"
proof -
  have "CHR ''.'' = upper_char c \<longleftrightarrow> c = CHR ''.''" for c
    using upper_char_dot[of c] by auto
  then show ?thesis unfolding upper_def by (induction s) auto
qed

lemma reserved_no_dot: "r \<in> set reserved_names \<Longrightarrow> CHR ''.'' \<notin> set r"
  unfolding reserved_names_def by auto

lemma str_replace_no_dot:
  "CHR ''.'' \<notin> set s \<Longrightarrow> str_replace s ''.pdf'' new = s"
  by (induction s) (auto simp: str_replace_Nil str_replace_Cons)

lemma str_replace_strip_extension:
  "CHR ''.'' \<notin> set b \<Longrightarrow> str_replace (b @ ''.pdf'') ''.pdf'' [] = b"
  by (induction b) (auto simp: str_replace_Nil str_replace_Cons)

lemma reserved_flagged:
  assumes "r \<in> set reserved_names"
    and "upper fname = r \<or> (\<exists>b. fname = b @ ''.pdf'' \<and> upper b = r)"
  shows "reserved_issue r \<in> set (snd (validate_filename fname))"
proof -
  have nd: "CHR ''.'' \<notin> set r" by (rule reserved_no_dot[OF assms(1)])
  have rne: "r \<noteq> []" using assms(1) unfolding reserved_names_def by auto
  from assms(2) have base: "upper (str_replace fname ''.pdf'' '''') = r \<and> fname \<noteq> []"
  proof
    assume u: "upper fname = r"
    then have "CHR ''.'' \<notin> set fname" using nd upper_no_dot by blast
    then have "str_replace fname ''.pdf'' '''' = fname" by (rule str_replace_no_dot)
    moreover have "fname \<noteq> []" using u rne by (auto simp: upper_def)
    ultimately show ?thesis using u by simp
  next
    assume "\<exists>b. fname = b @ ''.pdf'' \<and> upper b = r"
    then obtain b where b: "fname = b @ ''.pdf''" "upper b = r" by blast
    then have "CHR ''.'' \<notin> set b" using nd upper_no_dot by blast
    then have "str_replace fname ''.pdf'' '''' = b" unfolding b(1) by (rule str_replace_strip_extension)
    then show ?thesis using b by simp
  qed
  then show ?thesis
    unfolding validate_filename_issues using assms(1) by simp
qed

text \<open>
  C7. \<open>validate_filename\<close> returns every issue that applies, in the order of the checks:
  an empty name (alone, since no other check can apply to it); a name equal to \<open>.pdf\<close>; one
  issue for each of the nine invalid characters that occurs; a length over 200; a base name
  (every \<open>.pdf\<close> removed, upper-cased) that is a reserved device name; a double underscore.
  The name is valid iff the list is empty. In particular a name that equals a reserved name
  up to letter case, with or without a final \<open>.pdf\<close>, is flagged.
\<close>

theorem validate_filename_all_issues:
  "snd (validate_filename fname) =
     (if fname = [] then [''Filename is empty'']
      else (if fname = ''.pdf'' then [''Filename contains only extension''] else [])
         @ map invalid_char_issue (filter (\<lambda>c. c \<in> set fname) invalid_chars)
         @ (if length fname > 200 then [''Filename is too long (>200 characters)''] else [])
         @ (if upper (str_replace fname ''.pdf'' '''') \<in> set reserved_names
            then [reserved_issue (upper (str_replace fname ''.pdf'' ''''))] else [])
         @ (if \<exists>pre post. fname = pre @ ''__'' @ post
            then [''Contains double underscores (possible missing data)''] else []))
   \<and> (fst (validate_filename fname) \<longleftrightarrow> snd (validate_filename fname) = [])
   \<and> (\<forall>r \<in> set reserved_names.
         upper fname = r \<or> (\<exists>b. fname = b @ ''.pdf'' \<and> upper b = r)
         \<longrightarrow> reserved_issue r \<in> set (snd (validate_filename fname)))
   \<and> reserved_names = [''CON'', ''PRN'', ''AUX'', ''NUL'',
         ''COM1'', ''COM2'', ''COM3'', ''COM4'', ''COM5'', ''COM6'', ''COM7'', ''COM8'', ''COM9'',
         ''LPT1'', ''LPT2'', ''LPT3'', ''LPT4'', ''LPT5'', ''LPT6'', ''LPT7'', ''LPT8'', ''LPT9'']
   \<and> set invalid_chars = {CHR ''<'', CHR ''>'', CHR '':'', CHR 0x22, CHR ''/'', CHR 0x5C,
                            CHR ''|'', CHR ''?'', CHR ''*''}"
proof -
  have n: "reserved_names = [''CON'', ''PRN'', ''AUX'', ''NUL'',
         ''COM1'', ''COM2'', ''COM3'', ''COM4'', ''COM5'', ''COM6'', ''COM7'', ''COM8'', ''COM9'',
         ''LPT1'', ''LPT2'', ''LPT3'', ''LPT4'', ''LPT5'', ''LPT6'', ''LPT7'', ''LPT8'', ''LPT9'']"
    by (simp add: reserved_names_def)
  have i: "set invalid_chars = {CHR ''<'', CHR ''>'', CHR '':'', CHR 0x22, CHR ''/'', CHR 0x5C,
                            CHR ''|'', CHR ''?'', CHR ''*''}"
    by (simp add: invalid_chars_def)
  show ?thesis
    using validate_filename_issues[of fname] validate_filename_valid[of fname]
      reserved_flagged[of _ fname] n i
    by blast
qed

text \<open>
  C7 at concrete inputs: \<open>con.pdf\<close> is flagged as reserved; \<open>a__b:?.pdf\<close> gets three
  issues, in order.
\<close>

theorem validate_filename_all_issues_witness:
  "''CON'' \<in> set reserved_names
   \<and> reserved_issue ''CON'' \<in> set (snd (validate_filename ''con.pdf''))
   \<and> snd (validate_filename ''a__b:?.pdf'')
       = [invalid_char_issue CHR '':'', invalid_char_issue CHR ''?'',
          ''Contains double underscores (possible missing data)'']
   \<and> \<not> fst (validate_filename ''a__b:?.pdf'')"
proof -
  have r: "''CON'' \<in> set reserved_names" by (simp add: reserved_names_def)
  have u: "\<exists>b. ''con.pdf'' = b @ ''.pdf'' \<and> upper b = ''CON''"
    by (rule exI[of _ "''con''"]) (simp add: upper_def upper_char_def)
  have a: "reserved_issue ''CON'' \<in> set (snd (validate_filename ''con.pdf''))"
    using validate_filename_all_issues[of "''con.pdf''", THEN conjunct2, THEN conjunct2, THEN conjunct1] r u
    by blast
  have d: "\<exists>pre post. ''a__b:?.pdf'' = pre @ ''__'' @ post"
    by (rule exI[of _ "''a''"], rule exI[of _ "''b:?.pdf''"]) simp
  have nr: "upper (str_replace ''a__b:?.pdf'' ''.pdf'' '''') \<notin> set reserved_names"
    by (simp add: str_replace_Nil str_replace_Cons upper_def upper_char_def reserved_names_def)
  have b: "snd (validate_filename ''a__b:?.pdf'')
       = [invalid_char_issue CHR '':'', invalid_char_issue CHR ''?'',
          ''Contains double underscores (possible missing data)'']"
    using validate_filename_all_issues[of "''a__b:?.pdf''", THEN conjunct1] d nr
    by (simp add: invalid_chars_def)
  then have "\<not> fst (validate_filename ''a__b:?.pdf'')"
    using validate_filename_all_issues[of "''a__b:?.pdf''", THEN conjunct2, THEN conjunct1] by simp
  with r a b show ?thesis by blast
qed

subsection \<open>String similarity\<close>

lemma blocks_size_simps [simp]:
  "blocks_size [] = 0"
  "blocks_size ((i, j, k) # ms) = k + blocks_size ms"
  "blocks_size (ms @ ms') = blocks_size ms + blocks_size ms'"
  by (simp_all add: blocks_size_def)

lemma b2j_append_sound:
  assumes "\<forall>e idxs. (e, idxs) \<in> set d \<longrightarrow> (\<forall>j \<in> set idxs. b ! j = e)" and "b ! i = elt"
  shows "\<forall>e idxs. (e, idxs) \<in> set (b2j_append d elt i) \<longrightarrow> (\<forall>j \<in> set idxs. b ! j = e)"
  using assms by (induction d elt i rule: b2j_append.induct) auto

lemma b2j_fold_sound:
  assumes "\<forall>e idxs. (e, idxs) \<in> set d \<longrightarrow> (\<forall>j \<in> set idxs. b ! j = e)"
    and "\<forall>(i, elt) \<in> set ps. b ! i = elt"
  shows "\<forall>e idxs. (e, idxs) \<in> set (foldl (\<lambda>d (i, elt). b2j_append d elt i) d ps)
           \<longrightarrow> (\<forall>j \<in> set idxs. b ! j = e)"
  using assms
proof (induction ps arbitrary: d)
  case Nil
  then show ?case by simp
next
  case (Cons p ps)
  obtain i elt where p: "p = (i, elt)" by (cases p)
  have e: "b ! i = elt" using Cons.prems(2) p by simp
  have "\<forall>e idxs. (e, idxs) \<in> set (b2j_append d elt i) \<longrightarrow> (\<forall>j \<in> set idxs. b ! j = e)"
    by (rule b2j_append_sound[OF Cons.prems(1) e])
  from Cons.IH[OF this] Cons.prems(2) show ?case by (simp add: p)
qed

lemma chain_b_sound:
  "\<forall>c j. j \<in> set (dict_get_default (chain_b b) c []) \<longrightarrow> c = b ! j"
proof (intro allI impI)
  fix c j
  assume j: "j \<in> set (dict_get_default (chain_b b) c [])"
  let ?d = "foldl (\<lambda>d (i, elt). b2j_append d elt i) [] (enumerate 0 b)"
  have en: "\<forall>(i, elt) \<in> set (enumerate 0 b). b ! i = elt"
    by (auto simp: in_set_enumerate_eq)
  have inv: "\<forall>e idxs. (e, idxs) \<in> set ?d \<longrightarrow> (\<forall>j \<in> set idxs. b ! j = e)"
    by (rule b2j_fold_sound[OF _ en]) simp
  have sub: "set (chain_b b) \<subseteq> set ?d"
    unfolding chain_b_def Let_def by auto
  from j obtain idxs where m: "map_of (chain_b b) c = Some idxs" and ji: "j \<in> set idxs"
    unfolding dict_get_default_def by (cases "map_of (chain_b b) c") auto
  from map_of_SomeD[OF m] sub have "(c, idxs) \<in> set ?d" by auto
  with inv ji show "c = b ! j" by auto
qed

lemma matching_loop_size:
  assumes "\<forall>c j. j \<in> set (dict_get_default b2j c []) \<longrightarrow> c = b ! j"
  shows "blocks_size (matching_loop a b b2j isbjunk queue blocks)
           \<le> blocks_size blocks + sum_list (map span_a queue)
       \<and> blocks_size (matching_loop a b b2j isbjunk queue blocks)
           \<le> blocks_size blocks + sum_list (map span_b queue)
       \<and> (blocks_size blocks + sum_list (map span_a queue)
             \<le> blocks_size (matching_loop a b b2j isbjunk queue blocks)
          \<and> blocks_size blocks + sum_list (map span_b queue)
             \<le> blocks_size (matching_loop a b b2j isbjunk queue blocks)
          \<longrightarrow> (\<forall>w \<in> set queue. same_segment a b w))"
  using assms
proof (induction a b b2j isbjunk queue blocks rule: matching_loop.induct)
  case (1 a b b2j isbjunk matching_blocks)
  then show ?case by (simp add: matching_loop.simps)
next
  case (2 a b b2j isbjunk alo ahi blo bhi queue matching_blocks)
  obtain i j k where f: "find_longest_match a b b2j isbjunk alo ahi blo bhi = (i, j, k)"
    by (cases "find_longest_match a b b2j isbjunk alo ahi blo bhi")
  have ok: "match_ok (=) a b alo ahi blo bhi (i, j, k)"
    using find_longest_match_ok[where R = "(=)", OF _ "2.prems", of a alo ahi blo bhi isbjunk] f
    by simp
  show ?case
  proof (cases "k = 0")
    case True
    have res: "matching_loop a b b2j isbjunk ((alo, ahi, blo, bhi) # queue) matching_blocks
                 = matching_loop a b b2j isbjunk queue matching_blocks"
      by (simp add: matching_loop.simps f True)
    have nk: "\<not> k \<noteq> 0" using True by simp
    note ih = "2.IH"(2)[OF f[symmetric] refl nk "2.prems"]
    have z: "i = alo" "j = blo" using ok True unfolding match_ok_def by auto
    have c3: "same_segment a b (alo, ahi, blo, bhi)"
      if "blocks_size matching_blocks + sum_list (map span_a ((alo, ahi, blo, bhi) # queue))
                \<le> blocks_size (matching_loop a b b2j isbjunk queue matching_blocks)"
         "blocks_size matching_blocks + sum_list (map span_b ((alo, ahi, blo, bhi) # queue))
                \<le> blocks_size (matching_loop a b b2j isbjunk queue matching_blocks)"
      using that ih by simp
    show ?thesis unfolding res using ih c3 by auto
  next
    case False
    define q1 where "q1 = (if alo < i \<and> blo < j then (alo, i, blo, j) # queue else queue)"
    define q2 where "q2 = (if i + k < ahi \<and> j + k < bhi then (i + k, ahi, j + k, bhi) # q1 else q1)"
    define res where "res = matching_loop a b b2j isbjunk q2 (matching_blocks @ [(i, j, k)])"
    have r: "matching_loop a b b2j isbjunk ((alo, ahi, blo, bhi) # queue) matching_blocks = res"
      by (simp add: matching_loop.simps f False q1_def q2_def res_def Let_def)
    have ih: "blocks_size res \<le> blocks_size (matching_blocks @ [(i, j, k)]) + sum_list (map span_a q2)
       \<and> blocks_size res \<le> blocks_size (matching_blocks @ [(i, j, k)]) + sum_list (map span_b q2)
       \<and> (blocks_size (matching_blocks @ [(i, j, k)]) + sum_list (map span_a q2) \<le> blocks_size res
          \<and> blocks_size (matching_blocks @ [(i, j, k)]) + sum_list (map span_b q2) \<le> blocks_size res
          \<longrightarrow> (\<forall>w \<in> set q2. same_segment a b w))"
      unfolding res_def q2_def q1_def
      using "2.IH"(1)[OF f[symmetric] refl False refl refl "2.prems"] by simp
    have b: "alo \<le> i" "i + k \<le> ahi" "blo \<le> j" "j + k \<le> bhi"
      and eq: "\<forall>t<k. a ! (i + t) = b ! (j + t)"
      using ok False unfolding match_ok_def by auto
    have sa: "k + sum_list (map span_a q2) \<le> span_a (alo, ahi, blo, bhi) + sum_list (map span_a queue)"
      using b by (auto simp: q2_def q1_def)
    have sb: "k + sum_list (map span_b q2) \<le> span_b (alo, ahi, blo, bhi) + sum_list (map span_b queue)"
      using b by (auto simp: q2_def q1_def)
    have c1: "blocks_size res \<le> blocks_size matching_blocks
                 + sum_list (map span_a ((alo, ahi, blo, bhi) # queue))"
      using ih sa by simp
    have c2: "blocks_size res \<le> blocks_size matching_blocks
                 + sum_list (map span_b ((alo, ahi, blo, bhi) # queue))"
      using ih sb by simp
    have c3: "\<forall>w \<in> set ((alo, ahi, blo, bhi) # queue). same_segment a b w"
      if ge: "blocks_size matching_blocks + sum_list (map span_a ((alo, ahi, blo, bhi) # queue))
                \<le> blocks_size res"
             "blocks_size matching_blocks + sum_list (map span_b ((alo, ahi, blo, bhi) # queue))
                \<le> blocks_size res"
    proof -
      have ea: "k + sum_list (map span_a q2) = span_a (alo, ahi, blo, bhi) + sum_list (map span_a queue)"
        using ih sa ge by simp
      have eb: "k + sum_list (map span_b q2) = span_b (alo, ahi, blo, bhi) + sum_list (map span_b queue)"
        using ih sb ge by simp
      have all: "\<forall>w \<in> set q2. same_segment a b w"
        using ih ge sa sb by simp
      have rest: "\<forall>w \<in> set queue. same_segment a b w"
        using all by (auto simp: q2_def q1_def split: if_splits)
      have left: "i - alo = j - blo \<and> (\<forall>t < i - alo. a ! (alo + t) = b ! (blo + t))"
      proof (cases "alo < i \<and> blo < j")
        case True
        then have "(alo, i, blo, j) \<in> set q2" by (simp add: q2_def q1_def)
        with all have "same_segment a b (alo, i, blo, j)" by blast
        then show ?thesis by simp
      next
        case False
        then have "i = alo \<and> j = blo"
          using ea eb b by (auto simp: q2_def q1_def split: if_splits)
        then show ?thesis by simp
      qed
      have right: "ahi - (i + k) = bhi - (j + k)
                     \<and> (\<forall>t < ahi - (i + k). a ! (i + k + t) = b ! (j + k + t))"
      proof (cases "i + k < ahi \<and> j + k < bhi")
        case True
        then have "(i + k, ahi, j + k, bhi) \<in> set q2" by (simp add: q2_def)
        with all have "same_segment a b (i + k, ahi, j + k, bhi)" by blast
        then show ?thesis by simp
      next
        case False
        then have "i + k = ahi \<and> j + k = bhi"
          using ea eb b by (auto simp: q2_def q1_def split: if_splits)
        then show ?thesis by simp
      qed
      have len: "ahi - alo = bhi - blo" using left right b by linarith
      have "a ! (alo + t) = b ! (blo + t)" if t: "t < ahi - alo" for t
      proof -
        consider "t < i - alo" | "i - alo \<le> t" "t < i - alo + k" | "i - alo + k \<le> t"
          by linarith
        then show ?thesis
        proof cases
          case 1
          then show ?thesis using left by simp
        next
          case 2
          define s where "s = t - (i - alo)"
          have "s < k" using 2 by (simp add: s_def)
          then have "a ! (i + s) = b ! (j + s)" using eq by simp
          moreover have "i + s = alo + t" using 2 b by (simp add: s_def)
          moreover have "j + s = blo + t" using 2 b left by (simp add: s_def)
          ultimately show ?thesis by simp
        next
          case 3
          define s where "s = t - (i - alo + k)"
          have "s < ahi - (i + k)" using 3 t b by (simp add: s_def)
          then have "a ! (i + k + s) = b ! (j + k + s)" using right by simp
          moreover have "i + k + s = alo + t" using 3 b by (simp add: s_def)
          moreover have "j + k + s = blo + t" using 3 b left by (simp add: s_def)
          ultimately show ?thesis by simp
        qed
      qed
      with len have "same_segment a b (alo, ahi, blo, bhi)" by simp
      with rest show ?thesis by simp
    qed
    show ?thesis unfolding r using c1 c2 c3 by blast
  qed
qed


lemma blocks_size_insort: "blocks_size (insort_key f m ms) = blocks_size (m # ms)"
  by (induction ms) (auto simp: blocks_size_def)

lemma blocks_size_sort: "blocks_size (sort_key f ms) = blocks_size ms"
  by (induction ms) (simp_all add: blocks_size_insort, simp_all add: blocks_size_def)

lemma collapse_loop_size:
  "collapse_loop ms (i1, j1, k1) non_adjacent = ((i, j, k), res)
     \<Longrightarrow> blocks_size res + k = blocks_size non_adjacent + k1 + blocks_size ms"
proof (induction ms arbitrary: i1 j1 k1 non_adjacent)
  case Nil
  then show ?case by simp
next
  case (Cons m ms)
  obtain i2 j2 k2 where m: "m = (i2, j2, k2)" by (cases m)
  show ?case
  proof (cases "i1 + k1 = i2 \<and> j1 + k1 = j2")
    case True
    then show ?thesis using Cons.IH[of i1 j1 "k1 + k2" non_adjacent] Cons.prems by (simp add: m)
  next
    case False
    then show ?thesis
      using Cons.IH[of i2 j2 k2 "if k1 \<noteq> 0 then non_adjacent @ [(i1, j1, k1)] else non_adjacent"]
        Cons.prems
      by (auto simp: m split: if_splits)
  qed
qed

lemma get_matching_blocks_size:
  "blocks_size (get_matching_blocks a b)
     = blocks_size (matching_loop a b (chain_b b) (\<lambda>c. False) [(0, length a, 0, length b)] [])"
proof -
  define ms where "ms = sort (matching_loop a b (chain_b b) (\<lambda>c. False) [(0, length a, 0, length b)] [])"
  obtain i j k res where c: "collapse_loop ms (0, 0, 0) [] = ((i, j, k), res)"
    by (cases "collapse_loop ms (0, 0, 0) []") auto
  have g: "get_matching_blocks a b
             = (if k \<noteq> 0 then res @ [(i, j, k)] else res) @ [(length a, length b, 0)]"
    unfolding get_matching_blocks_def Let_def ms_def[symmetric] c by simp
  have "blocks_size (get_matching_blocks a b) = blocks_size res + k"
    unfolding g by simp
  also have "\<dots> = blocks_size ms" using collapse_loop_size[OF c] by simp
  also have "\<dots> = blocks_size (matching_loop a b (chain_b b) (\<lambda>c. False) [(0, length a, 0, length b)] [])"
    unfolding ms_def by (rule blocks_size_sort)
  finally show ?thesis .
qed

lemma ratio_blocks_size:
  "ratio a b = calculate_ratio (blocks_size (get_matching_blocks a b)) (length a + length b)"
  unfolding ratio_def Let_def blocks_size_def ..

lemma matches_le:
  "blocks_size (get_matching_blocks a b) \<le> length a \<and> blocks_size (get_matching_blocks a b) \<le> length b"
  unfolding get_matching_blocks_size
  using matching_loop_size[where a = a and b = b and isbjunk = "\<lambda>c. False"
        and queue = "[(0, length a, 0, length b)]" and blocks = "[]", OF chain_b_sound]
  by simp

lemma matches_full:
  assumes "length a \<le> blocks_size (get_matching_blocks a b)"
    and "length b \<le> blocks_size (get_matching_blocks a b)"
  shows "a = b"
proof -
  have "same_segment a b (0, length a, 0, length b)"
    using matching_loop_size[where a = a and b = b and isbjunk = "\<lambda>c. False"
        and queue = "[(0, length a, 0, length b)]" and blocks = "[]", OF chain_b_sound]
      assms
    unfolding get_matching_blocks_size by simp
  then show ?thesis by (simp add: nth_equalityI)
qed

lemma ratio_tide_diet: "ratio ''tide'' ''diet'' = 1 / 4"
  by code_simp

lemma ratio_diet_tide: "ratio ''diet'' ''tide'' = 1 / 2"
  by code_simp

text \<open>
  C8, as stated, fails: the ratio is not symmetric in its two arguments. On the lowercase
  strings \<open>tide\<close> and \<open>diet\<close> it is 1/4 in one order and 1/2 in the other, as the
  documentation of \<open>difflib\<close> warns.
\<close>

theorem ratio_not_symmetric:
  "ratio (lower ''tide'') (lower ''diet'') \<noteq> ratio (lower ''diet'') (lower ''tide'')"
proof -
  have l: "lower ''tide'' = ''tide''" "lower ''diet'' = ''diet''" by code_simp+
  show ?thesis unfolding l ratio_tide_diet ratio_diet_tide by simp
qed

text \<open>
  C8, amended: for all strings \<open>a\<close> and \<open>b\<close> the ratio lies in the closed interval from 0
  to 1, and it equals 1 only when \<open>a\<close> and \<open>b\<close> are the same string. Nothing is claimed
  about exchanging the arguments.
\<close>

theorem ratio_range_identical:
  "0 \<le> ratio a b \<and> ratio a b \<le> 1 \<and> (ratio a b = 1 \<longrightarrow> a = b)"
proof -
  define m where "m = blocks_size (get_matching_blocks a b)"
  define n where "n = length a + length b"
  have r: "ratio a b = (if n \<noteq> 0 then 2 * of_nat m / of_nat n else 1)"
    unfolding ratio_blocks_size calculate_ratio_def m_def n_def ..
  have le: "m \<le> length a" "m \<le> length b" using matches_le[of a b] by (simp_all add: m_def)
  show ?thesis
  proof (cases "n = 0")
    case True
    then have "ratio a b = 1" by (simp add: r)
    moreover from True have "a = b" by (simp add: n_def)
    ultimately show ?thesis by simp
  next
    case False
    then have pos: "(0::rat) < of_nat n" by simp
    have "2 * m \<le> n" using le by (simp add: n_def)
    then have "(2::rat) * of_nat m \<le> of_nat n" by (metis of_nat_le_iff of_nat_mult of_nat_numeral)
    then have up: "ratio a b \<le> 1" using pos False by (simp add: r)
    have lo: "0 \<le> ratio a b" using False by (simp add: r)
    have "a = b" if "ratio a b = 1"
    proof -
      from that False pos have "(2::rat) * of_nat m = of_nat n" by (simp add: r)
      then have "(of_nat (2 * m) :: rat) = of_nat n" by simp
      then have "2 * m = n" by (simp only: of_nat_eq_iff)
      then have "length a \<le> m" "length b \<le> m" using le by (simp_all add: n_def)
      then show ?thesis using matches_full[of a b] by (simp add: m_def)
    qed
    with up lo show ?thesis by simp
  qed
qed


lemma ratio_acme: "ratio ''acme'' ''acme'' = 1"
  by code_simp

theorem ratio_range_identical_witness:
  "ratio ''acme'' ''acme'' = 1 \<and> 0 \<le> ratio ''acme'' ''acme'' \<and> ratio ''acme'' ''acme'' \<le> 1
     \<and> ''acme'' = ''acme''"
  using ratio_range_identical[of "''acme''" "''acme''"] ratio_acme by simp

end
